theory Spec2Isabelle
  imports Main
begin

section \<open>goelement: a parent/child tree over the tokens of an HTML tokenizer\<close>

text \<open>
  The Go package builds its tree out of heap-allocated \<open>Node\<close> values that point at each
  other (\<open>Parent *Node\<close>, \<open>Children []*Node\<close>) and that are updated in place
  (\<open>parent.Children = append(parent.Children, node)\<close>). The embedding therefore keeps an
  explicit store: a pointer is an index into the list of allocated objects, \<open>nil\<close> is
  \<open>None\<close>, and every dereference of \<open>nil\<close> is a panic, returned as an error value.
\<close>

subsection \<open>Data\<close>

text \<open>\<open>html.TokenType\<close> of golang.org/x/net/html.\<close>

datatype TokenType =
  ErrorToken | TextToken | StartTagToken | EndTagToken | SelfClosingTagToken
  | CommentToken | DoctypeToken

text \<open>\<open>html.Attribute\<close>.\<close>

record Attribute =
  Namespace :: string
  Key :: string
  Val :: string

text \<open>
  \<open>html.Token\<close>: the token type, the tag name or text (\<open>Data\<close>) and the ordered
  attribute list. (\<open>DataAtom\<close> is a number the tokenizer derives from \<open>Data\<close>; the
  package never reads it.)
\<close>

record Token =
  Type :: TokenType
  Data :: string
  Attr :: "Attribute list"

text \<open>A pointer: \<open>None\<close> is Go's \<open>nil\<close>, \<open>Some a\<close> the object at index \<open>a\<close>.\<close>

type_synonym ref = "nat option"

text \<open>\<open>type NodePath struct\<close>.\<close>

record NodePath =
  Path :: string
  ID :: string
  Class :: string

text \<open>
  \<open>type Node struct\<close>: the embedded \<open>html.Token\<close>, the parent pointer, the slice of child
  pointers and the map from attribute name to a pointer to an \<open>html.Attribute\<close>.
\<close>

record Node = Token +
  Parent :: ref
  Children :: "ref list"
  Attributes :: "string \<rightharpoonup> nat"

text \<open>
  The store: the allocated nodes, the allocated \<open>html.Attribute\<close> variables that the
  \<open>Attributes\<close> maps point to, and the local slice variables whose address a lookup
  passes down (\<open>var nodes []*Node\<close>, handed on as \<open>&nodes\<close>).
\<close>

record store =
  nodes :: "Node list"
  cells :: "Attribute list"
  slices :: "ref list list"

definition empty_store :: store where
  "empty_store = \<lparr>nodes = [], cells = [], slices = []\<rparr>"

text \<open>
  What ends a call other than a return: a nil pointer dereference (Go's run-time panic),
  a pointer to no allocated object (not reachable from Go; it makes the model total), and
  a recursion that does not end (a cyclic parent or child chain overflows Go's stack).
\<close>

datatype error = NilDereference | InvalidPointer | Diverges

definition deref :: "Node list \<Rightarrow> ref \<Rightarrow> error + Node" where
  "deref h node =
     (case node of
        None \<Rightarrow> Inl NilDereference
      | Some a \<Rightarrow> if a < length h then Inr (h ! a) else Inl InvalidPointer)"

subsection \<open>The functions of package strings that the code calls\<close>

text \<open>\<open>strings.Split(s, "/")\<close>: never empty; the empty string splits into one empty piece.\<close>

fun Split :: "string \<Rightarrow> string list" where
  "Split [] = [ [] ]"
| "Split (c # cs) =
     (if c = CHR ''/'' then [] # Split cs
      else (case Split cs of [] \<Rightarrow> [ [c] ] | x # xs \<Rightarrow> (c # x) # xs))"

text \<open>\<open>strings.Join(parts, "/")\<close>.\<close>

fun Join :: "string list \<Rightarrow> string" where
  "Join [] = []"
| "Join [x] = x"
| "Join (x # y # ys) = x @ ''/'' @ Join (y # ys)"

text \<open>\<open>strings.HasPrefix(s, ".")\<close> and \<open>strings.TrimPrefix(s, ".")\<close>.\<close>

definition HasPrefix :: "string \<Rightarrow> bool" where
  "HasPrefix s = (case s of [] \<Rightarrow> False | c # _ \<Rightarrow> c = CHR ''.'')"

definition TrimPrefix :: "string \<Rightarrow> string" where
  "TrimPrefix s = (case s of [] \<Rightarrow> [] | c # cs \<Rightarrow> if c = CHR ''.'' then cs else s)"

subsection \<open>newNode\<close>

text \<open>
  \<open>for _, attr := range token.Attr { attrs[attr.Key] = &attr }\<close>

  The package predates Go 1.22 and has no go.mod, so its loops have the semantics of Go
  before 1.22: \<open>attr\<close> is one variable for the whole loop. Each iteration copies the next element of
  \<open>token.Attr\<close> into it and stores its address under the element's key. \<open>v\<close> is the address
  of that variable.
\<close>

fun newNode_range ::
  "Attribute list \<Rightarrow> nat \<Rightarrow> (string \<rightharpoonup> nat) \<Rightarrow> Attribute list
     \<Rightarrow> (string \<rightharpoonup> nat) \<times> Attribute list" where
  "newNode_range [] v attrs cs = (attrs, cs)"
| "newNode_range (a # as) v attrs cs = newNode_range as v (attrs(Key a \<mapsto> v)) (cs[v := a])"

text \<open>
  \<open>newNode\<close> allocates the loop variable and the node; it returns the node's address and
  the store that holds both.
\<close>

definition newNode :: "Token \<Rightarrow> ref \<Rightarrow> store \<Rightarrow> nat \<times> store" where
  "newNode token parent s =
     (let v = length (cells s);
          (attrs, cs) = newNode_range (Attr token) v Map.empty
                          (cells s @ [\<lparr>Namespace = [], Key = [], Val = []\<rparr>]);
          node = \<lparr>Type = Type token, Data = Data token, Attr = Attr token,
                  Parent = parent, Children = [], Attributes = attrs\<rparr>
      in (length (nodes s), s\<lparr>nodes := nodes s @ [node], cells := cs\<rparr>))"

subsection \<open>FindTagReverse\<close>

text \<open>
  The recursion climbs the parent pointers. The first argument bounds the depth of the
  recursion: a chain of pairwise different nodes is no longer than the store, so with
  \<open>Suc (length h)\<close> the bound is reached only on a cyclic chain, where the Go code does
  not return either.
\<close>

fun FindTagReverse_fuel :: "nat \<Rightarrow> Node list \<Rightarrow> ref \<Rightarrow> string \<Rightarrow> error + ref" where
  "FindTagReverse_fuel 0 h node tag = Inl Diverges"
| "FindTagReverse_fuel (Suc k) h node tag =
     (case deref h node of
        Inl e \<Rightarrow> Inl e
      | Inr n \<Rightarrow>
          if Data n = tag then Inr node
          else if Parent n = None then Inr None
          else FindTagReverse_fuel k h (Parent n) tag)"

definition FindTagReverse :: "Node list \<Rightarrow> ref \<Rightarrow> string \<Rightarrow> error + ref" where
  "FindTagReverse h node tag = FindTagReverse_fuel (Suc (length h)) h node tag"

subsection \<open>dive\<close>

text \<open>
  The tokenizer is the list of the tokens it will deliver; at the end of the list
  \<open>Next\<close> returns \<open>ErrorToken\<close> (\<open>io.EOF\<close>). The loop's variables are the store,
  \<open>parent\<close> and \<open>root\<close>.
\<close>

definition appendChild :: "ref \<Rightarrow> nat \<Rightarrow> store \<Rightarrow> error + store" where
  "appendChild parent node s =
     (case deref (nodes s) parent of
        Inl e \<Rightarrow> Inl e
      | Inr p \<Rightarrow>
          Inr (s\<lparr>nodes := (nodes s)[the parent := p\<lparr>Children := Children p @ [Some node]\<rparr>]\<rparr>))"

definition dive_step :: "Token \<Rightarrow> store \<times> ref \<times> ref \<Rightarrow> error + store \<times> ref \<times> ref" where
  "dive_step current st =
     (case st of (s, parent, root) \<Rightarrow>
        (case Type current of
           StartTagToken \<Rightarrow>
             (case newNode current parent s of (node, s1) \<Rightarrow>
                if root = None then Inr (s1, Some node, Some node)
                else (case appendChild parent node s1 of
                        Inl e \<Rightarrow> Inl e
                      | Inr s2 \<Rightarrow> Inr (s2, Some node, root)))
         | SelfClosingTagToken \<Rightarrow>
             (case newNode current parent s of (node, s1) \<Rightarrow>
                (case appendChild parent node s1 of
                   Inl e \<Rightarrow> Inl e
                 | Inr s2 \<Rightarrow> Inr (s2, parent, root)))
         | EndTagToken \<Rightarrow>
             (case FindTagReverse (nodes s) parent (Data current) of
                Inl e \<Rightarrow> Inl e
              | Inr None \<Rightarrow> Inr (s, parent, root)
              | Inr (Some t) \<Rightarrow>
                  (case deref (nodes s) (Some t) of
                     Inl e \<Rightarrow> Inl e
                   | Inr n \<Rightarrow> Inr (s, Parent n, root)))
         | _ \<Rightarrow> Inr (s, parent, root)))"

fun dive_loop :: "Token list \<Rightarrow> store \<times> ref \<times> ref \<Rightarrow> error + ref \<times> store" where
  "dive_loop [] st = (case st of (s, parent, root) \<Rightarrow> Inr (root, s))"
| "dive_loop (current # rest) st =
     (if Type current = ErrorToken then (case st of (s, parent, root) \<Rightarrow> Inr (root, s))
      else (case dive_step current st of
              Inl e \<Rightarrow> Inl e
            | Inr st' \<Rightarrow> dive_loop rest st'))"

definition dive :: "Token list \<Rightarrow> error + ref \<times> store" where
  "dive tokens = dive_loop tokens (empty_store, None, None)"

text \<open>
  The tokens that the tokenizer delivers for \<open><name attrs>\<close>, \<open></name>\<close>,
  \<open><name attrs/>\<close> and a run of text.
\<close>

definition StartTag :: "string \<Rightarrow> Attribute list \<Rightarrow> Token" where
  "StartTag name as = \<lparr>Type = StartTagToken, Data = name, Attr = as\<rparr>"

definition EndTag :: "string \<Rightarrow> Token" where
  "EndTag name = \<lparr>Type = EndTagToken, Data = name, Attr = []\<rparr>"

definition SelfClosingTag :: "string \<Rightarrow> Attribute list \<Rightarrow> Token" where
  "SelfClosingTag name as = \<lparr>Type = SelfClosingTagToken, Data = name, Attr = as\<rparr>"

definition Text :: "string \<Rightarrow> Token" where
  "Text str = \<lparr>Type = TextToken, Data = str, Attr = []\<rparr>"

subsection \<open>HasClass, HasID\<close>

definition HasClass :: "store \<Rightarrow> ref \<Rightarrow> string \<Rightarrow> error + bool" where
  "HasClass s node class =
     (if class = [] then Inr True
      else (case deref (nodes s) node of
              Inl e \<Rightarrow> Inl e
            | Inr n \<Rightarrow>
                (case Attributes n ''class'' of
                   None \<Rightarrow> Inr False
                 | Some check \<Rightarrow>
                     if check < length (cells s) then Inr (Val (cells s ! check) = class)
                     else Inl InvalidPointer)))"

definition HasID :: "store \<Rightarrow> ref \<Rightarrow> string \<Rightarrow> error + bool" where
  "HasID s node ident =
     (if ident = [] then Inr True
      else (case deref (nodes s) node of
              Inl e \<Rightarrow> Inl e
            | Inr n \<Rightarrow>
                (case Attributes n ''id'' of
                   None \<Rightarrow> Inr False
                 | Some check \<Rightarrow>
                     if check < length (cells s) then Inr (Val (cells s ! check) = ident)
                     else Inl InvalidPointer)))"

subsection \<open>MatchesPath\<close>

lemma Split_not_Nil: "Split p \<noteq> []"
  by (induction p) (auto split: list.splits)

lemma Join_Split: "Join (Split p) = p"
proof (induction p)
  case Nil
  show ?case by simp
next
  case (Cons c cs)
  obtain x xs where sp: "Split cs = x # xs"
    using Split_not_Nil [of cs] by (cases "Split cs") auto
  then have "Join (x # xs) = cs" using Cons by simp
  then show ?case using sp by (cases xs) auto
qed

lemma Join_snoc: "xs \<noteq> [] \<Longrightarrow> Join (xs @ [y]) = Join xs @ ''/'' @ y"
  by (induction xs rule: Join.induct) auto

lemma Join_butlast_shorter:
  assumes "length xs \<noteq> Suc 0" and "xs \<noteq> []"
  shows "length (Join (butlast xs)) < length (Join xs)"
proof -
  have ne: "butlast xs \<noteq> []" using assms by (cases xs) auto
  have "xs = butlast xs @ [last xs]" using assms by simp
  then have "Join xs = Join (butlast xs) @ ''/'' @ last xs"
    using Join_snoc [OF ne, of "last xs"] by simp
  then show ?thesis by simp
qed

lemma newPath_shorter:
  "length (Split path) \<noteq> Suc 0 \<Longrightarrow> length (Join (butlast (Split path))) < length path"
  using Join_butlast_shorter [of "Split path"] Split_not_Nil [of path]
  by (simp add: Join_Split)

text \<open>
  The receiver may be \<open>nil\<close> (\<open>node.Parent.MatchesPath(newPath)\<close> at the root): the call
  panics where it first reads \<open>node.Data\<close>, which is after the test for the empty path.
  Every recursive call is on a shorter path.
\<close>

function MatchesPath :: "Node list \<Rightarrow> ref \<Rightarrow> string \<Rightarrow> error + bool" where
  "MatchesPath h node path =
     (if path = [] then Inr True
      else (let split = Split path;
                directChild = HasPrefix (last split);
                current = TrimPrefix (last split)
            in case deref h node of
                 Inl e \<Rightarrow> Inl e
               | Inr n \<Rightarrow>
                   if length split = 1 then Inr (current = Data n)
                   else if current \<noteq> Data n then Inr False
                   else (let newPath = Join (butlast split)
                         in if directChild then MatchesPath h (Parent n) newPath
                            else (case FindTagReverse h node
                                         (TrimPrefix (split ! (length split - 2))) of
                                    Inl e \<Rightarrow> Inl e
                                  | Inr None \<Rightarrow> Inr False
                                  | Inr (Some parent) \<Rightarrow> MatchesPath h (Some parent) newPath))))"
  by pat_completeness auto
termination
  by (relation "measure (\<lambda>(h, node, path). length path)") (auto simp: newPath_shorter)

declare MatchesPath.simps [simp del]

subsection \<open>FindTag, FindPath\<close>

text \<open>
  The recursion descends through the child slices; the first argument bounds its depth,
  as in \<open>FindTagReverse_fuel\<close>. The \<open>_range\<close> functions are the \<open>for _, child := range\<close>
  loops.
\<close>

fun FindTag_fuel :: "nat \<Rightarrow> Node list \<Rightarrow> ref \<Rightarrow> string \<Rightarrow> error + ref"
  and FindTag_range :: "nat \<Rightarrow> Node list \<Rightarrow> ref list \<Rightarrow> string \<Rightarrow> error + ref" where
  "FindTag_fuel 0 h node tag = Inl Diverges"
| "FindTag_fuel (Suc k) h node tag =
     (case deref h node of
        Inl e \<Rightarrow> Inl e
      | Inr n \<Rightarrow> if Data n = tag then Inr node else FindTag_range k h (Children n) tag)"
| "FindTag_range k h [] tag = Inr None"
| "FindTag_range k h (child # rest) tag =
     (case FindTag_fuel k h child tag of
        Inl e \<Rightarrow> Inl e
      | Inr None \<Rightarrow> FindTag_range k h rest tag
      | Inr (Some result) \<Rightarrow> Inr (Some result))"

definition FindTag :: "Node list \<Rightarrow> ref \<Rightarrow> string \<Rightarrow> error + ref" where
  "FindTag h node tag = FindTag_fuel (Suc (length h)) h node tag"

text \<open>
  The test that \<open>FindPath\<close> and \<open>findAll\<close> both make:
  \<open>node.MatchesPath(path) == true && node.HasClass(class) && node.HasID(ID)\<close>,
  evaluated left to right and stopping at the first \<open>false\<close>.
\<close>

definition matchesNodePath :: "store \<Rightarrow> ref \<Rightarrow> NodePath \<Rightarrow> error + bool" where
  "matchesNodePath s node nodePath =
     (case MatchesPath (nodes s) node (Path nodePath) of
        Inl e \<Rightarrow> Inl e
      | Inr False \<Rightarrow> Inr False
      | Inr True \<Rightarrow>
          (case HasClass s node (Class nodePath) of
             Inl e \<Rightarrow> Inl e
           | Inr False \<Rightarrow> Inr False
           | Inr True \<Rightarrow> HasID s node (ID nodePath)))"

fun FindPath_fuel :: "nat \<Rightarrow> store \<Rightarrow> ref \<Rightarrow> NodePath \<Rightarrow> error + ref"
  and FindPath_range :: "nat \<Rightarrow> store \<Rightarrow> ref list \<Rightarrow> NodePath \<Rightarrow> error + ref" where
  "FindPath_fuel 0 s node nodePath = Inl Diverges"
| "FindPath_fuel (Suc k) s node nodePath =
     (case matchesNodePath s node nodePath of
        Inl e \<Rightarrow> Inl e
      | Inr True \<Rightarrow> Inr node
      | Inr False \<Rightarrow>
          (case deref (nodes s) node of
             Inl e \<Rightarrow> Inl e
           | Inr n \<Rightarrow> FindPath_range k s (Children n) nodePath))"
| "FindPath_range k s [] nodePath = Inr None"
| "FindPath_range k s (child # rest) nodePath =
     (case FindPath_fuel k s child nodePath of
        Inl e \<Rightarrow> Inl e
      | Inr None \<Rightarrow> FindPath_range k s rest nodePath
      | Inr (Some result) \<Rightarrow> Inr (Some result))"

definition FindPath :: "store \<Rightarrow> ref \<Rightarrow> NodePath \<Rightarrow> error + ref" where
  "FindPath s node nodePath = FindPath_fuel (Suc (length (nodes s))) s node nodePath"

subsection \<open>FindPathAll, FlattenChildren\<close>

text \<open>
  \<open>*nodes = append( *nodes, node)\<close>: the only assignment a lookup makes. \<open>out\<close> is the
  address of the caller's slice variable.
\<close>

definition appendSlice :: "nat \<Rightarrow> ref \<Rightarrow> store \<Rightarrow> store" where
  "appendSlice out node s = s\<lparr>slices := (slices s)[out := slices s ! out @ [node] ]\<rparr>"

fun findAll_fuel :: "nat \<Rightarrow> ref \<Rightarrow> NodePath \<Rightarrow> nat \<Rightarrow> store \<Rightarrow> error + store"
  and findAll_range :: "nat \<Rightarrow> ref list \<Rightarrow> NodePath \<Rightarrow> nat \<Rightarrow> store \<Rightarrow> error + store" where
  "findAll_fuel 0 node nodePath out s = Inl Diverges"
| "findAll_fuel (Suc k) node nodePath out s =
     (case matchesNodePath s node nodePath of
        Inl e \<Rightarrow> Inl e
      | Inr b \<Rightarrow>
          (let s1 = (if b then appendSlice out node s else s)
           in case deref (nodes s1) node of
                Inl e \<Rightarrow> Inl e
              | Inr n \<Rightarrow> findAll_range k (Children n) nodePath out s1))"
| "findAll_range k [] nodePath out s = Inr s"
| "findAll_range k (child # rest) nodePath out s =
     (case findAll_fuel k child nodePath out s of
        Inl e \<Rightarrow> Inl e
      | Inr s1 \<Rightarrow> findAll_range k rest nodePath out s1)"

text \<open>
  \<open>var nodes []*Node\<close> is a fresh variable holding the nil slice; the result is its value
  when \<open>findAll\<close> has returned, together with the store at that moment.
\<close>

definition FindPathAll :: "ref \<Rightarrow> NodePath \<Rightarrow> store \<Rightarrow> error + ref list \<times> store" where
  "FindPathAll node nodePath s =
     (let out = length (slices s)
      in case findAll_fuel (Suc (length (nodes s))) node nodePath out
                (s\<lparr>slices := slices s @ [ [] ]\<rparr>) of
           Inl e \<Rightarrow> Inl e
         | Inr s1 \<Rightarrow> Inr (slices s1 ! out, s1))"

fun getChildTree_fuel :: "nat \<Rightarrow> ref \<Rightarrow> nat \<Rightarrow> store \<Rightarrow> error + store"
  and getChildTree_range :: "nat \<Rightarrow> ref list \<Rightarrow> nat \<Rightarrow> store \<Rightarrow> error + store" where
  "getChildTree_fuel 0 node out s = Inl Diverges"
| "getChildTree_fuel (Suc k) node out s =
     (let s1 = appendSlice out node s
      in case deref (nodes s1) node of
           Inl e \<Rightarrow> Inl e
         | Inr n \<Rightarrow> getChildTree_range k (Children n) out s1)"
| "getChildTree_range k [] out s = Inr s"
| "getChildTree_range k (child # rest) out s =
     (case getChildTree_fuel k child out s of
        Inl e \<Rightarrow> Inl e
      | Inr s1 \<Rightarrow> getChildTree_range k rest out s1)"

definition FlattenChildren :: "ref \<Rightarrow> store \<Rightarrow> error + ref list \<times> store" where
  "FlattenChildren node s =
     (let out = length (slices s)
      in case deref (nodes s) node of
           Inl e \<Rightarrow> Inl e
         | Inr n \<Rightarrow>
             (case getChildTree_range (Suc (length (nodes s))) (Children n) out
                     (s\<lparr>slices := slices s @ [ [] ]\<rparr>) of
                Inl e \<Rightarrow> Inl e
              | Inr s1 \<Rightarrow> Inr (slices s1 ! out, s1)))"

subsection \<open>Path\<close>

fun createPath_fuel :: "nat \<Rightarrow> Node list \<Rightarrow> ref \<Rightarrow> string \<Rightarrow> error + string" where
  "createPath_fuel 0 h node path = Inl Diverges"
| "createPath_fuel (Suc k) h node path =
     (case deref h node of
        Inl e \<Rightarrow> Inl e
      | Inr n \<Rightarrow>
          if Parent n = None then Inr (''/'' @ Data n @ path)
          else createPath_fuel k h (Parent n) (''/'' @ Data n @ path))"

text \<open>The method \<open>Path\<close> of \<open>Node\<close> (the name \<open>Path\<close> is the field of \<open>NodePath\<close>).\<close>

definition Node_Path :: "Node list \<Rightarrow> ref \<Rightarrow> error + string" where
  "Node_Path h node = createPath_fuel (Suc (length h)) h node []"

section \<open>Vocabulary of the properties\<close>

text \<open>
  \<open>ParseFromString\<close> hands back the root pointer only; the nodes stay in the program's
  memory. \<open>built\<close> is that memory after \<open>dive\<close> has returned.
\<close>

definition built :: "Token list \<Rightarrow> store" where
  "built tokens = (case dive tokens of Inl e \<Rightarrow> empty_store | Inr (root, s) \<Rightarrow> s)"

text \<open>The tokens of \<open><div><section><h1>X</h1></section></div>\<close>.\<close>

definition div_section_h1 :: "Token list" where
  "div_section_h1 =
     [StartTag ''div'' [], StartTag ''section'' [], StartTag ''h1'' [], Text ''X'',
      EndTag ''h1'', EndTag ''section'', EndTag ''div'']"

text \<open>The tokens of \<open><div><h1 class="element">Testing</h1><h1>Other</h1></div>\<close>.\<close>

definition div_h1_h1 :: "Token list" where
  "div_h1_h1 =
     [StartTag ''div'' [],
      StartTag ''h1'' [\<lparr>Namespace = [], Key = ''class'', Val = ''element''\<rparr>],
      Text ''Testing'', EndTag ''h1'', StartTag ''h1'' [], Text ''Other'', EndTag ''h1'',
      EndTag ''div'']"

text \<open>The tokens of \<open><a><a><b></b></a><b></b></a>\<close>.\<close>

definition a_a_b_b :: "Token list" where
  "a_a_b_b =
     [StartTag ''a'' [], StartTag ''a'' [], StartTag ''b'' [], EndTag ''b'', EndTag ''a'',
      StartTag ''b'' [], EndTag ''b'', EndTag ''a'']"

text \<open>The tokens of \<open><p>Test</p>\<close>.\<close>

definition p_Test :: "Token list" where
  "p_Test = [StartTag ''p'' [], Text ''Test'', EndTag ''p'']"

text \<open>
  The shape of the node store that \<open>dive\<close> maintains: a parent is allocated before its
  children, and every entry of a child slice is a non-nil pointer to a node whose parent
  pointer leads back.
\<close>

definition wf_nodes :: "Node list \<Rightarrow> bool" where
  "wf_nodes h =
     (\<forall>a < length h.
        (\<forall>p. Parent (h ! a) = Some p \<longrightarrow> p < a)
        \<and> (\<forall>c \<in> set (Children (h ! a)).
              \<exists>b. c = Some b \<and> a < b \<and> b < length h \<and> Parent (h ! b) = Some a))"

text \<open>The invariant of the loop of \<open>dive\<close>, over the store, \<open>parent\<close> and \<open>root\<close>.\<close>

definition dive_inv :: "store \<times> ref \<times> ref \<Rightarrow> bool" where
  "dive_inv st =
     (case st of (s, parent, root) \<Rightarrow>
        wf_nodes (nodes s)
        \<and> (\<forall>p. parent = Some p \<longrightarrow> p < length (nodes s))
        \<and> (case root of
              None \<Rightarrow> nodes s = [] \<and> parent = None
            | Some r \<Rightarrow> r < length (nodes s) \<and> Parent (nodes s ! r) = None))"

text \<open>
  Every node but the first allocated one has a parent that lists it as a child; the root,
  once there is one, is the first node allocated.
\<close>

definition linked :: "Node list \<Rightarrow> bool" where
  "linked h =
     (\<forall>a < length h. 0 < a \<longrightarrow>
        (\<exists>p < a. Parent (h ! a) = Some p \<and> Some a \<in> set (Children (h ! p))))"

definition linked_inv :: "store \<times> ref \<times> ref \<Rightarrow> bool" where
  "linked_inv st = (case st of (s, parent, root) \<Rightarrow>
      linked (nodes s) \<and> (\<forall>r. root = Some r \<longrightarrow> r = 0))"

text \<open>A node stems from a start-tag or self-closing-tag token of the stream.\<close>

definition tag_token_of :: "Token list \<Rightarrow> Node \<Rightarrow> bool" where
  "tag_token_of toks n =
     (\<exists>t \<in> set toks. (Type t = StartTagToken \<or> Type t = SelfClosingTagToken)
         \<and> Type n = Type t \<and> Data n = Data t \<and> Attr n = Attr t)"

text \<open>
  A chain of nodes in which each one is listed in the child slice of the one before: the
  way down from the first node to the last.
\<close>

fun child_chain :: "Node list \<Rightarrow> nat list \<Rightarrow> bool" where
  "child_chain h [] = False"
| "child_chain h [a] = (a < length h)"
| "child_chain h (a # b # rest) =
     (a < length h \<and> Some b \<in> set (Children (h ! a)) \<and> child_chain h (b # rest))"

text \<open>
  Document order, as the specification words it: depth first, a node before its children,
  the children from left to right. \<open>tree_of\<close> reads the tree below a node off the store
  (to a bounded depth, \<open>None\<close> when the bound or a dead pointer is hit); \<open>preorder\<close> lists
  its nodes.
\<close>

datatype tree = Tree ref "tree list"

fun preorder :: "tree \<Rightarrow> ref list" where
  "preorder (Tree a ts) = a # concat (map preorder ts)"

primrec tree_of :: "nat \<Rightarrow> Node list \<Rightarrow> ref \<Rightarrow> tree option" where
  "tree_of 0 h node = None"
| "tree_of (Suc k) h node =
     (case deref h node of
        Inl e \<Rightarrow> None
      | Inr n \<Rightarrow> map_option (Tree node) (those (map (tree_of k h) (Children n))))"

text \<open>The nodes of a sequence that pass the test of a query, and the first of a sequence.\<close>

definition matching :: "store \<Rightarrow> NodePath \<Rightarrow> ref list \<Rightarrow> ref list" where
  "matching s nodePath as = filter (\<lambda>a. matchesNodePath s a nodePath = Inr True) as"

definition first :: "ref list \<Rightarrow> ref" where
  "first found = (case found of [] \<Rightarrow> None | a # _ \<Rightarrow> a)"

text \<open>The store after \<open>found\<close> has been appended to the slice variable \<open>out\<close>.\<close>

definition appended :: "nat \<Rightarrow> ref list \<Rightarrow> store \<Rightarrow> store" where
  "appended out found s = s\<lparr>slices := (slices s)[out := slices s ! out @ found]\<rparr>"

text \<open>
  Two runs of a collecting function, one on \<open>s\<close> with the slice variable \<open>out\<close> and one on
  \<open>t\<close> with \<open>out'\<close>, behave alike: both panic in the same way, or both append the same
  nodes and change nothing else.
\<close>

definition same_run ::
  "nat \<Rightarrow> store \<Rightarrow> nat \<Rightarrow> store \<Rightarrow> error + store \<Rightarrow> error + store \<Rightarrow> bool" where
  "same_run out s out' t r r' =
     (case r of
        Inl e \<Rightarrow> r' = Inl e
      | Inr s1 \<Rightarrow> \<exists>found. s1 = appended out found s \<and> r' = Inr (appended out' found t))"

text \<open>
  The lookup methods of \<open>Node\<close> as one family: \<open>run\<close> calls the method on a receiver and
  returns its answer with the store it leaves. The methods that contain no assignment
  leave the store they were given.
\<close>

datatype lookup =
  DoFindPath NodePath | DoFindPathAll NodePath | DoFindTag string | DoFindTagReverse string
  | DoMatchesPath string | DoFlattenChildren | DoPath

datatype answer = ANode ref | ANodes "ref list" | ABool bool | AString string

fun run :: "lookup \<Rightarrow> ref \<Rightarrow> store \<Rightarrow> error + answer \<times> store" where
  "run (DoFindPath nodePath) node s = map_sum id (\<lambda>r. (ANode r, s)) (FindPath s node nodePath)"
| "run (DoFindPathAll nodePath) node s =
     map_sum id (\<lambda>(found, s'). (ANodes found, s')) (FindPathAll node nodePath s)"
| "run (DoFindTag tag) node s = map_sum id (\<lambda>r. (ANode r, s)) (FindTag (nodes s) node tag)"
| "run (DoFindTagReverse tag) node s =
     map_sum id (\<lambda>r. (ANode r, s)) (FindTagReverse (nodes s) node tag)"
| "run (DoMatchesPath path) node s =
     map_sum id (\<lambda>b. (ABool b, s)) (MatchesPath (nodes s) node path)"
| "run DoFlattenChildren node s =
     map_sum id (\<lambda>(found, s'). (ANodes found, s')) (FlattenChildren node s)"
| "run DoPath node s = map_sum id (\<lambda>p. (AString p, s)) (Node_Path (nodes s) node)"

section \<open>Tree construction on markup that is not one well-nested element\<close>

lemmas dive_unfold =
  dive_def dive_step_def newNode_def appendChild_def deref_def FindTagReverse_def
  empty_store_def StartTag_def EndTag_def SelfClosingTag_def Text_def

text \<open>
  C1. The claim: a self-closing tag that arrives while there is no open cursor is a silent
  no-op; construction does not crash and goes on to return the root. The code does not do
  that: \<open>parent.Children = append(parent.Children, node)\<close> reads \<open>parent.Children\<close> with
  \<open>parent == nil\<close>. The document \<open><img/>\<close> panics, and so does every self-closing tag
  that meets a nil cursor, whatever the store and the root are.
\<close>

theorem dive_self_closing_without_cursor_panics:
  "dive [SelfClosingTag ''img'' [] ] = Inl NilDereference
   \<and> dive_step (SelfClosingTag name as) (s, None, root) = Inl NilDereference"
  by (simp add: dive_unfold split: prod.splits)

text \<open>
  C2. The claim: an end tag with no matching open ancestor never crashes construction and
  leaves the cursor unchanged. With a nil cursor nothing is open, so every end tag is
  unmatched, and \<open>parent.FindTagReverse(current.Data)\<close> reads \<open>node.Data\<close> of the nil
  receiver: the document \<open></span>\<close> panics, and so does \<open><a></a></span>\<close>. (With a
  cursor the code does what the claim says: \<open>dive_step_unmatched_end_tag_keeps_cursor\<close>
  below.)
\<close>

theorem dive_stray_end_tag_without_cursor_panics:
  "dive [EndTag ''span''] = Inl NilDereference
   \<and> dive [StartTag ''a'' [], EndTag ''a'', EndTag ''span''] = Inl NilDereference
   \<and> dive_step (EndTag name) (s, None, root) = Inl NilDereference"
  by (simp add: dive_unfold split: prod.splits)

text \<open>
  C9. For the well-formed markup \<open><a></a><b></b>\<close> construction dereferences a nil
  cursor at the second top-level start tag, and not before. The start tag of \<open>a\<close> is
  processed without a panic: it allocates the first node, with no parent and no children,
  and makes it both root and cursor. The end tag of \<open>a\<close> is processed without a panic
  too: it leaves the store as it is and sets the cursor to the parent of the root, which
  is nil, so that \<open><a></a>\<close> alone returns that root. In the state so reached, a root
  with a nil cursor, the start tag of \<open>b\<close> takes the branch
  \<open>parent.Children = append(parent.Children, node)\<close> and panics, whatever follows it in
  the stream. The same holds for every start tag that arrives in a state with a root and
  a nil cursor.
\<close>

theorem dive_second_top_level_element_panics:
  "(\<exists>s1. dive_step (StartTag ''a'' []) (empty_store, None, None) = Inr (s1, Some 0, Some 0)
          \<and> length (nodes s1) = 1 \<and> Data (nodes s1 ! 0) = ''a''
          \<and> Parent (nodes s1 ! 0) = None \<and> Children (nodes s1 ! 0) = []
          \<and> dive_step (EndTag ''a'') (s1, Some 0, Some 0) = Inr (s1, None, Some 0)
          \<and> dive [StartTag ''a'' [], EndTag ''a''] = Inr (Some 0, s1)
          \<and> dive_step (StartTag ''b'' []) (s1, None, Some 0) = Inl NilDereference)
   \<and> dive [StartTag ''a'' [], EndTag ''a'', StartTag ''b'' [] ] = Inl NilDereference
   \<and> dive [StartTag ''a'' [], EndTag ''a'', StartTag ''b'' [], EndTag ''b''] = Inl NilDereference
   \<and> dive_step (StartTag name as) (s, None, Some r) = Inl NilDereference"
  by (simp add: dive_unfold split: prod.splits)

section \<open>What every store built by dive looks like\<close>

lemma FindTagReverse_fuel_valid:
  "FindTagReverse_fuel k h node tag = Inr (Some t) \<Longrightarrow> t < length h"
  by (induction k arbitrary: node)
     (auto simp: deref_def split: sum.splits option.splits if_splits)

lemma nodes_newNode: "newNode tok parent s = (a, s1) \<Longrightarrow>
  a = length (nodes s) \<and> (\<exists>n. nodes s1 = nodes s @ [n] \<and> Parent n = parent \<and> Children n = []
     \<and> Type n = Type tok \<and> Data n = Data tok \<and> Attr n = Attr tok)"
  by (auto simp: newNode_def Let_def split: prod.splits)

lemma wf_nodes_alloc_root: "wf_nodes [n]" if "Parent n = None" "Children n = []"
  using that by (simp add: wf_nodes_def)

lemma wf_nodes_append_child:
  assumes wf: "wf_nodes h" and p: "p < length h" and n: "Parent n = Some p" "Children n = []"
  shows "wf_nodes ((h @ [n])[p := (h ! p)\<lparr>Children := Children (h ! p) @ [Some (length h)]\<rparr>])"
  unfolding wf_nodes_def
proof (intro allI impI conjI ballI)
  let ?h' = "(h @ [n])[p := (h ! p)\<lparr>Children := Children (h ! p) @ [Some (length h)]\<rparr>]"
  fix a q assume a: "a < length ?h'" and q: "Parent (?h' ! a) = Some q"
  show "q < a"
  proof (cases "a = length h")
    case True then show ?thesis using q n p by (simp add: nth_append)
  next
    case False
    then have "a < length h" using a by simp
    then have "Parent (h ! a) = Some q" using q p by (cases "a = p") (simp_all add: nth_append nth_list_update)
    then show ?thesis using wf \<open>a < length h\<close> by (simp add: wf_nodes_def)
  qed
next
  let ?h' = "(h @ [n])[p := (h ! p)\<lparr>Children := Children (h ! p) @ [Some (length h)]\<rparr>]"
  have par: "Parent (?h' ! b) = Parent ((h @ [n]) ! b)" for b
    by (cases "b = p") (use p in \<open>simp_all add: nth_append nth_list_update\<close>)
  fix a c assume a: "a < length ?h'" and c: "c \<in> set (Children (?h' ! a))"
  show "\<exists>b. c = Some b \<and> a < b \<and> b < length ?h' \<and> Parent (?h' ! b) = Some a"
  proof (cases "a = length h")
    case True then show ?thesis using c n p by (simp add: nth_append)
  next
    case False
    then have al: "a < length h" using a by simp
    show ?thesis
    proof (cases "c \<in> set (Children (h ! a))")
      case True
      then obtain b where "c = Some b" "a < b" "b < length h" "Parent (h ! b) = Some a"
        using wf al unfolding wf_nodes_def by blast
      then show ?thesis using par [of b] by (simp add: nth_append)
    next
      case False
      then have "a = p" "c = Some (length h)"
        using c al p by (cases "a = p"; simp add: nth_append nth_list_update)+
      then show ?thesis using par [of "length h"] n p by simp
    qed
  qed
qed

lemma dive_step_inv:
  assumes "dive_inv st" and "dive_step tok st = Inr st'"
  shows "dive_inv st'"
proof -
  obtain s parent root where st: "st = (s, parent, root)" by (cases st)
  show ?thesis
  proof (cases "Type tok")
    case StartTagToken
    obtain a s1 where nn: "newNode tok parent s = (a, s1)" by (cases "newNode tok parent s")
    from nodes_newNode [OF nn] obtain n where n: "a = length (nodes s)" "nodes s1 = nodes s @ [n]"
      "Parent n = parent" "Children n = []" by auto
    show ?thesis
    proof (cases root)
      case None
      then show ?thesis using assms st StartTagToken nn n
        by (auto simp: dive_step_def dive_inv_def wf_nodes_alloc_root)
    next
      case (Some r)
      then obtain p where p: "parent = Some p" "p < length (nodes s)"
        using assms st StartTagToken nn n
        by (cases parent) (auto simp: dive_step_def dive_inv_def appendChild_def deref_def)
      have wf: "wf_nodes (nodes s)" using assms st by (simp add: dive_inv_def)
      have "st' = (s1\<lparr>nodes := (nodes s1)[p := (nodes s1 ! p)\<lparr>Children := Children (nodes s1 ! p) @ [Some a]\<rparr>]\<rparr>, Some a, root)"
        using assms st StartTagToken nn n p Some
        by (auto simp: dive_step_def appendChild_def deref_def)
      moreover have "nodes s1 ! p = nodes s ! p" using n p by (simp add: nth_append)
      ultimately show ?thesis
        using wf_nodes_append_child [OF wf p(2), of n] n p Some assms(1) st
        by (auto simp: dive_inv_def nth_append nth_list_update)
    qed
  next
    case SelfClosingTagToken
    obtain a s1 where nn: "newNode tok parent s = (a, s1)" by (cases "newNode tok parent s")
    from nodes_newNode [OF nn] obtain n where n: "a = length (nodes s)" "nodes s1 = nodes s @ [n]"
      "Parent n = parent" "Children n = []" by auto
    obtain p where p: "parent = Some p" "p < length (nodes s)"
        using assms st SelfClosingTagToken nn n
        by (cases parent) (auto simp: dive_step_def dive_inv_def appendChild_def deref_def)
    have wf: "wf_nodes (nodes s)" using assms st by (simp add: dive_inv_def)
    have "st' = (s1\<lparr>nodes := (nodes s1)[p := (nodes s1 ! p)\<lparr>Children := Children (nodes s1 ! p) @ [Some a]\<rparr>]\<rparr>, parent, root)"
      using assms st SelfClosingTagToken nn n p
      by (auto simp: dive_step_def appendChild_def deref_def)
    moreover have "nodes s1 ! p = nodes s ! p" using n p by (simp add: nth_append)
    ultimately show ?thesis
      using wf_nodes_append_child [OF wf p(2), of n] n p assms(1) st
      by (auto simp: dive_inv_def nth_append nth_list_update split: option.splits)
  next
    case EndTagToken
    show ?thesis
    proof (cases "FindTagReverse (nodes s) parent (Data tok)")
      case (Inl e) then show ?thesis using assms st EndTagToken by (simp add: dive_step_def)
    next
      case (Inr r)
      show ?thesis
      proof (cases r)
        case None then show ?thesis using assms st EndTagToken Inr by (auto simp: dive_step_def)
      next
        case (Some t)
        then have t: "t < length (nodes s)"
          using Inr unfolding FindTagReverse_def by (blast dest: FindTagReverse_fuel_valid)
        then have "st' = (s, Parent (nodes s ! t), root)"
          using assms st EndTagToken Inr Some by (simp add: dive_step_def deref_def)
        moreover have "\<forall>p. Parent (nodes s ! t) = Some p \<longrightarrow> p < length (nodes s)"
          using assms(1) st t by (fastforce simp: dive_inv_def wf_nodes_def)
        ultimately show ?thesis using assms(1) st t
          by (auto simp: dive_inv_def split: option.splits)
      qed
    qed
  qed (use assms st in \<open>auto simp: dive_step_def\<close>)
qed

lemma dive_loop_inv:
  "dive_inv st \<Longrightarrow> dive_loop toks st = Inr (root, s) \<Longrightarrow> dive_inv (s, None, root)"
proof (induction toks arbitrary: st)
  case Nil
  then show ?case by (auto simp: dive_inv_def split: prod.splits option.splits)
next
  case (Cons t ts)
  show ?case
  proof (cases "Type t = ErrorToken")
    case True
    with Cons.prems show ?thesis by (auto simp: dive_inv_def split: prod.splits option.splits)
  next
    case False
    with Cons.prems obtain st' where "dive_step t st = Inr st'" "dive_loop ts st' = Inr (root, s)"
      by (auto split: sum.splits)
    then show ?thesis using Cons.IH dive_step_inv Cons.prems(1) by blast
  qed
qed

lemma dive_wf:
  assumes "dive toks = Inr (root, s)"
  shows "wf_nodes (nodes s)" and "\<And>r. root = Some r \<Longrightarrow> r < length (nodes s) \<and> Parent (nodes s ! r) = None"
proof -
  have "dive_inv (empty_store, None, None)" by (simp add: dive_inv_def wf_nodes_def empty_store_def)
  then have "dive_inv (s, None, root)" using dive_loop_inv assms unfolding dive_def by blast
  then show "wf_nodes (nodes s)" "\<And>r. root = Some r \<Longrightarrow> r < length (nodes s) \<and> Parent (nodes s ! r) = None"
    by (auto simp: dive_inv_def)
qed

text \<open>
  With a cursor, an end tag that matches no node on the way up from the cursor changes
  nothing.
\<close>

lemma dive_step_unmatched_end_tag_keeps_cursor:
  "FindTagReverse (nodes s) (Some p) name = Inr None \<Longrightarrow>
     dive_step (EndTag name) (s, Some p, root) = Inr (s, Some p, root)"
  by (simp add: dive_step_def EndTag_def)

text \<open>
  In the stores that \<open>dive\<close> maintains the climb to the root always ends, and the only
  way in which \<open>dive\<close> does not return is the nil pointer dereference.
\<close>

lemma FindTagReverse_fuel_returns:
  "wf_nodes h \<Longrightarrow> a < length h \<Longrightarrow> a < k \<Longrightarrow>
     \<exists>r. FindTagReverse_fuel k h (Some a) tag = Inr r"
proof (induction k arbitrary: a)
  case 0
  then show ?case by simp
next
  case (Suc k)
  show ?case
  proof (cases "Parent (h ! a)")
    case None
    then show ?thesis using Suc.prems(2) by (simp add: deref_def)
  next
    case (Some p)
    then have "p < a" using Suc.prems(1,2) unfolding wf_nodes_def by blast
    then have "\<exists>r. FindTagReverse_fuel k h (Some p) tag = Inr r"
      using Suc.IH [of p] Suc.prems by simp
    then show ?thesis using Some Suc.prems(2) by (auto simp: deref_def)
  qed
qed

lemma dive_step_only_nil_panics:
  assumes "dive_inv st" and "dive_step tok st = Inl e"
  shows "e = NilDereference"
proof -
  obtain s parent root where st: "st = (s, parent, root)" by (cases st)
  have p: "\<And>p. parent = Some p \<Longrightarrow> p < length (nodes s)" and wf: "wf_nodes (nodes s)"
    using assms(1) st by (simp_all add: dive_inv_def)
  have ac: "appendChild parent a s1 = Inl e' \<Longrightarrow> e' = NilDereference"
    if "length (nodes s) \<le> length (nodes s1)" for a s1 e'
    using p that by (cases parent) (auto simp: appendChild_def deref_def split: if_splits)
  show ?thesis
  proof (cases "Type tok")
    case StartTagToken
    obtain a s1 where nn: "newNode tok parent s = (a, s1)" by (cases "newNode tok parent s")
    then have "length (nodes s) \<le> length (nodes s1)" using nodes_newNode [OF nn] by auto
    then show ?thesis using assms(2) st StartTagToken nn ac [of s1 a e]
      by (auto simp: dive_step_def split: if_splits sum.splits)
  next
    case SelfClosingTagToken
    obtain a s1 where nn: "newNode tok parent s = (a, s1)" by (cases "newNode tok parent s")
    then have "length (nodes s) \<le> length (nodes s1)" using nodes_newNode [OF nn] by auto
    then show ?thesis using assms(2) st SelfClosingTagToken nn ac [of s1 a e]
      by (auto simp: dive_step_def split: if_splits sum.splits)
  next
    case EndTagToken
    show ?thesis
    proof (cases parent)
      case None
      then show ?thesis using assms(2) st EndTagToken
        by (simp add: dive_step_def FindTagReverse_def deref_def)
    next
      case (Some q)
      then have q: "q < length (nodes s)" using p by simp
      then obtain r where r: "FindTagReverse (nodes s) parent (Data tok) = Inr r"
        using FindTagReverse_fuel_returns [OF wf q, of "Suc (length (nodes s))" "Data tok"] Some
        unfolding FindTagReverse_def by auto
      show ?thesis
      proof (cases r)
        case None
        then show ?thesis using assms(2) st EndTagToken r by (simp add: dive_step_def)
      next
        case t: (Some t)
        then have "t < length (nodes s)"
          using r unfolding FindTagReverse_def by (blast dest: FindTagReverse_fuel_valid)
        then show ?thesis using assms(2) st EndTagToken r t by (simp add: dive_step_def deref_def)
      qed
    qed
  qed (use assms(2) st in \<open>auto simp: dive_step_def\<close>)
qed

lemma dive_loop_only_nil_panics:
  "dive_inv st \<Longrightarrow> dive_loop toks st = Inl e \<Longrightarrow> e = NilDereference"
proof (induction toks arbitrary: st)
  case Nil
  then show ?case by (simp split: prod.splits)
next
  case (Cons t ts)
  show ?case
  proof (cases "dive_step t st")
    case (Inl e')
    then show ?thesis using Cons.prems dive_step_only_nil_panics [of st t e']
      by (auto split: if_splits prod.splits)
  next
    case (Inr st')
    then have "dive_inv st'" using Cons.prems(1) dive_step_inv by blast
    then show ?thesis using Cons.IH [of st'] Cons.prems(2) Inr
      by (auto split: if_splits prod.splits)
  qed
qed

lemma dive_only_nil_panics: "dive tokens = Inl e \<Longrightarrow> e = NilDereference"
  unfolding dive_def
  by (rule dive_loop_only_nil_panics [of "(empty_store, None, None)"])
     (simp_all add: dive_inv_def wf_nodes_def empty_store_def)

section \<open>Text tokens\<close>

lemma dive_step_text: "Type t = TextToken \<Longrightarrow> dive_step t st = Inr st"
  by (simp add: dive_step_def split: prod.splits)

lemma dive_loop_filter_text:
  "dive_loop (filter (\<lambda>t. Type t \<noteq> TextToken) toks) st = dive_loop toks st"
  by (induction toks arbitrary: st) (auto simp: dive_step_text split: sum.splits)

lemma dive_step_origin:
  assumes "dive_step tok (s, parent, root) = Inr (s', parent', root')"
    and "\<forall>n \<in> set (nodes s). tag_token_of toks n" and "tok \<in> set toks"
  shows "\<forall>n \<in> set (nodes s'). tag_token_of toks n"
proof -
  have upd: "\<forall>n \<in> set (h[p := (h ! p)\<lparr>Children := cs\<rparr>]). tag_token_of toks n"
    if "\<forall>n \<in> set h. tag_token_of toks n" "p < length h" for h p cs
  proof
    fix n assume "n \<in> set (h[p := (h ! p)\<lparr>Children := cs\<rparr>])"
    then have "n \<in> set h \<or> n = (h ! p)\<lparr>Children := cs\<rparr>"
      using set_update_subset_insert by fastforce
    moreover have "tag_token_of toks (h ! p)" using that by simp
    ultimately show "tag_token_of toks n" using that(1) by (auto simp: tag_token_of_def)
  qed
  show ?thesis
  proof (cases "Type tok")
    case StartTagToken
    obtain a s1 where nn: "newNode tok parent s = (a, s1)" by (cases "newNode tok parent s")
    from nodes_newNode [OF nn] obtain n where n: "nodes s1 = nodes s @ [n]"
      "Type n = Type tok" "Data n = Data tok" "Attr n = Attr tok" by auto
    then have "tag_token_of toks n" using assms(3) StartTagToken by (auto simp: tag_token_of_def)
    then have s1: "\<forall>n \<in> set (nodes s1). tag_token_of toks n" using assms(2) n by auto
    show ?thesis using assms(1) StartTagToken nn s1 upd [OF s1]
      by (auto simp: dive_step_def appendChild_def deref_def split: if_splits option.splits)
  next
    case SelfClosingTagToken
    obtain a s1 where nn: "newNode tok parent s = (a, s1)" by (cases "newNode tok parent s")
    from nodes_newNode [OF nn] obtain n where n: "nodes s1 = nodes s @ [n]"
      "Type n = Type tok" "Data n = Data tok" "Attr n = Attr tok" by auto
    then have "tag_token_of toks n" using assms(3) SelfClosingTagToken by (auto simp: tag_token_of_def)
    then have s1: "\<forall>n \<in> set (nodes s1). tag_token_of toks n" using assms(2) n by auto
    show ?thesis using assms(1) SelfClosingTagToken nn s1 upd [OF s1]
      by (auto simp: dive_step_def appendChild_def deref_def split: if_splits option.splits)
  qed (use assms in \<open>auto simp: dive_step_def split: sum.splits option.splits\<close>)
qed

lemma dive_loop_origin:
  "dive_loop ts st = Inr (root, s') \<Longrightarrow> \<forall>n \<in> set (nodes (fst st)). tag_token_of toks n \<Longrightarrow>
     set ts \<subseteq> set toks \<Longrightarrow> \<forall>n \<in> set (nodes s'). tag_token_of toks n"
proof (induction ts arbitrary: st)
  case Nil
  then show ?case by (auto split: prod.splits)
next
  case (Cons t ts)
  show ?case
  proof (cases "Type t = ErrorToken")
    case True
    with Cons.prems show ?thesis by (auto split: prod.splits)
  next
    case False
    with Cons.prems obtain st' where st': "dive_step t st = Inr st'" "dive_loop ts st' = Inr (root, s')"
      by (auto split: sum.splits)
    obtain s p r where st: "st = (s, p, r)" by (cases st)
    obtain s1 p1 r1 where st1: "st' = (s1, p1, r1)" by (cases st')
    have "\<forall>n \<in> set (nodes s1). tag_token_of toks n"
      using dive_step_origin [of t s p r s1 p1 r1 toks] st' st st1 Cons.prems by simp
    then show ?thesis using Cons.IH [OF st'(2)] st1 Cons.prems(3) by simp
  qed
qed

text \<open>
  C10. Text tokens contribute nothing to the tree. Construction gives the same outcome
  (the same root and store, or the same panic) on the stream from which the text tokens
  have been removed; and when it returns, every node of the store carries the type, name
  and attribute list of a start-tag or self-closing-tag token of the stream, so that no
  node holds the data of a text token.
\<close>

theorem text_tokens_leave_no_node:
  "dive (filter (\<lambda>t. Type t \<noteq> TextToken) tokens) = dive tokens
   \<and> (\<forall>root s. dive tokens = Inr (root, s) \<longrightarrow>
        (\<forall>n \<in> set (nodes s). \<exists>t \<in> set tokens.
           (Type t = StartTagToken \<or> Type t = SelfClosingTagToken)
           \<and> Type n = Type t \<and> Data n = Data t \<and> Attr n = Attr t))"
proof (intro conjI allI impI)
  show "dive (filter (\<lambda>t. Type t \<noteq> TextToken) tokens) = dive tokens"
    by (simp add: dive_def dive_loop_filter_text)
next
  fix root s assume "dive tokens = Inr (root, s)"
  then have "\<forall>n \<in> set (nodes s). tag_token_of tokens n"
    using dive_loop_origin [of tokens "(empty_store, None, None)" root s tokens]
    by (simp add: dive_def empty_store_def)
  then show "\<forall>n \<in> set (nodes s). \<exists>t \<in> set tokens.
           (Type t = StartTagToken \<or> Type t = SelfClosingTagToken)
           \<and> Type n = Type t \<and> Data n = Data t \<and> Attr n = Attr t"
    by (simp add: tag_token_of_def)
qed

theorem text_tokens_leave_no_node_witness:
  "dive [StartTag ''p'' [], EndTag ''p''] = dive p_Test
   \<and> dive p_Test = Inr (Some 0, built p_Test)
   \<and> map Type (nodes (built p_Test)) = [StartTagToken]
   \<and> map Data (nodes (built p_Test)) = [''p'']"
proof -
  have d: "dive p_Test = Inr (Some 0, built p_Test)"
    by (simp add: built_def p_Test_def dive_unfold)
  have f: "filter (\<lambda>t. Type t \<noteq> TextToken) p_Test = [StartTag ''p'' [], EndTag ''p'']"
    by (simp add: p_Test_def StartTag_def EndTag_def Text_def)
  have l: "map Type (nodes (built p_Test)) = [StartTagToken]"
    "map Data (nodes (built p_Test)) = [''p'']"
    by (simp_all add: built_def p_Test_def dive_unfold)
  show ?thesis using text_tokens_leave_no_node [of p_Test] d f l by simp
qed

section \<open>Path matching on concrete trees\<close>

text \<open>
  C6. In the tree built from \<open><div><section><h1>X</h1></section></div>\<close> the nodes are
  \<open>div\<close>, \<open>section\<close> and \<open>h1\<close>, in this order of allocation. On the \<open>h1\<close> node
  \<open>MatchesPath\<close> returns false for \<open>div/.h1\<close> and true for \<open>div/h1\<close>.
\<close>

theorem MatchesPath_direct_child_marker:
  "\<exists>s. dive div_section_h1 = Inr (Some 0, s)
       \<and> map Data (nodes s) = [''div'', ''section'', ''h1'']
       \<and> MatchesPath (nodes s) (Some 2) ''div/.h1'' = Inr False
       \<and> MatchesPath (nodes s) (Some 2) ''div/h1'' = Inr True"
  by (simp add: div_section_h1_def dive_unfold MatchesPath.simps HasPrefix_def TrimPrefix_def)

text \<open>
  C3. The claim: an unmarked second-to-last segment is satisfied only at a node strictly
  above the node tested, so that \<open>div/div\<close> does not match a \<open>div\<close> with no \<open>div\<close>
  ancestor. The code looks the segment up with \<open>node.FindTagReverse(parentName)\<close>, which
  begins at the node itself: in the tree built from \<open><div></div>\<close> the only node has no
  parent, and \<open>MatchesPath\<close> returns true on it for \<open>div/div\<close> and for \<open>div/div/div\<close>.
\<close>

theorem MatchesPath_unmarked_segment_matches_node_itself:
  "\<exists>s. dive [StartTag ''div'' [], EndTag ''div''] = Inr (Some 0, s)
       \<and> length (nodes s) = 1
       \<and> Parent (nodes s ! 0) = None
       \<and> MatchesPath (nodes s) (Some 0) ''div/div'' = Inr True
       \<and> MatchesPath (nodes s) (Some 0) ''div/div/div'' = Inr True"
  by (simp add: dive_unfold MatchesPath.simps HasPrefix_def TrimPrefix_def)

section \<open>The attribute map\<close>

text \<open>
  Whatever the tag, every key of its attribute list is mapped to the one loop variable,
  which ends up holding the last attribute of the list.
\<close>

lemma newNode_range_alias:
  "newNode_range as v attrs cs = (attrs', cs') \<Longrightarrow>
     (\<forall>k. attrs' k = (if k \<in> Key ` set as then Some v else attrs k))
     \<and> cs' = (if as = [] then cs else cs[v := last as])"
proof (induction as arbitrary: attrs cs)
  case Nil
  then show ?case by simp
next
  case (Cons a as)
  from Cons.IH [OF Cons.prems [simplified] ] show ?case by (cases as) auto
qed

lemma newNode_attributes_point_to_last:
  assumes "newNode token parent s = (a, s')" and "Attr token \<noteq> []"
    and "k \<in> Key ` set (Attr token)"
  shows "Attributes (nodes s' ! a) k = Some (length (cells s))
         \<and> cells s' ! length (cells s) = last (Attr token)"
proof -
  obtain attrs cs where r: "newNode_range (Attr token) (length (cells s)) Map.empty
       (cells s @ [\<lparr>Namespace = [], Key = [], Val = []\<rparr>]) = (attrs, cs)"
    by (cases "newNode_range (Attr token) (length (cells s)) Map.empty
       (cells s @ [\<lparr>Namespace = [], Key = [], Val = []\<rparr>])")
  from newNode_range_alias [OF r] assms(2,3)
  have "attrs k = Some (length (cells s))"
    "cs = (cells s @ [\<lparr>Namespace = [], Key = [], Val = []\<rparr>])[length (cells s) := last (Attr token)]"
    by auto
  then show ?thesis using assms(1) r by (auto simp: newNode_def)
qed

text \<open>
  C4. The claim: looking a key up in a node's attribute map gives the value last written
  for that key. The map stores \<open>&attr\<close>, the address of the one loop variable, under every
  key, and when the loop has ended that variable holds the last attribute of the tag. For
  \<open><h1 class="element" id="x">\<close> the entry for \<open>class\<close> points to the attribute
  \<open>id="x"\<close>, and \<open>HasClass\<close> denies the class that the tag has.
\<close>

theorem newNode_attributes_alias_loop_variable:
  "\<exists>a s c.
     newNode (StartTag ''h1'' [\<lparr>Namespace = [], Key = ''class'', Val = ''element''\<rparr>,
                               \<lparr>Namespace = [], Key = ''id'', Val = ''x''\<rparr>]) None empty_store
       = (a, s)
     \<and> Attributes (nodes s ! a) ''class'' = Some c
     \<and> Attributes (nodes s ! a) ''id'' = Some c
     \<and> cells s ! c = \<lparr>Namespace = [], Key = ''id'', Val = ''x''\<rparr>
     \<and> HasClass s (Some a) ''element'' = Inr False
     \<and> HasClass s (Some a) ''x'' = Inr True"
  by (simp add: newNode_def empty_store_def StartTag_def HasClass_def deref_def)

section \<open>Path\<close>

lemma child_chain_snoc:
  "xs \<noteq> [] \<Longrightarrow> child_chain h (xs @ [x]) =
     (child_chain h xs \<and> Some x \<in> set (Children (h ! last xs)) \<and> x < length h)"
  by (induction h xs rule: child_chain.induct) auto

lemma child_chain_last: "child_chain h xs \<Longrightarrow> last xs < length h"
  by (induction h xs rule: child_chain.induct) auto

lemma child_chain_length:
  "wf_nodes h \<Longrightarrow> child_chain h (a # rest) \<Longrightarrow> length (a # rest) + a \<le> length h"
proof (induction rest arbitrary: a)
  case Nil then show ?case by simp
next
  case (Cons b rest)
  then have "a < b" unfolding wf_nodes_def by fastforce
  moreover have "length (b # rest) + b \<le> length h" using Cons by simp
  ultimately show ?case by simp
qed

lemma createPath_chain:
  assumes wf: "wf_nodes h"
  shows "child_chain h xs \<Longrightarrow> Parent (h ! hd xs) = None \<Longrightarrow> length xs \<le> k \<Longrightarrow>
     createPath_fuel k h (Some (last xs)) path =
       Inr (concat (map (\<lambda>a. ''/'' @ Data (h ! a)) xs) @ path)"
proof (induction xs arbitrary: k path rule: rev_induct)
  case Nil then show ?case by simp
next
  case (snoc x xs)
  obtain k' where k: "k = Suc k'" using snoc.prems(3) by (cases k) auto
  show ?case
  proof (cases "xs = []")
    case True
    then show ?thesis using snoc.prems k by (simp add: deref_def)
  next
    case False
    then have ch: "child_chain h xs" "Some x \<in> set (Children (h ! last xs))" "x < length h"
      using snoc.prems(1) by (simp_all add: child_chain_snoc)
    have "last xs < length h" using ch(1) by (rule child_chain_last)
    then have par: "Parent (h ! x) = Some (last xs)"
      using wf ch(2) unfolding wf_nodes_def by fastforce
    have "createPath_fuel k' h (Some (last xs)) (''/'' @ Data (h ! x) @ path) =
            Inr (concat (map (\<lambda>a. ''/'' @ Data (h ! a)) xs) @ ''/'' @ Data (h ! x) @ path)"
      using snoc.IH [OF ch(1), of k'] snoc.prems(2,3) False k by simp
    then show ?thesis using k ch(3) par by (simp add: deref_def)
  qed
qed

lemma linked_append_child:
  assumes l: "linked h" and p: "p < length h" and n: "Parent n = Some p"
  shows "linked ((h @ [n])[p := (h ! p)\<lparr>Children := Children (h ! p) @ [Some (length h)]\<rparr>])"
  unfolding linked_def
proof (intro allI impI)
  let ?h' = "(h @ [n])[p := (h ! p)\<lparr>Children := Children (h ! p) @ [Some (length h)]\<rparr>]"
  have par: "Parent (?h' ! b) = Parent ((h @ [n]) ! b)" for b
    by (cases "b = p") (use p in \<open>simp_all add: nth_append nth_list_update\<close>)
  have chi: "set (Children (h ! b)) \<subseteq> set (Children (?h' ! b))" if "b < length h" for b
    by (cases "b = p") (use p that in \<open>auto simp: nth_append nth_list_update\<close>)
  fix a assume a: "a < length ?h'" "0 < a"
  show "\<exists>q<a. Parent (?h' ! a) = Some q \<and> Some a \<in> set (Children (?h' ! q))"
  proof (cases "a = length h")
    case True
    then show ?thesis using p n par [of a] by (intro exI [of _ p]) (simp add: nth_append)
  next
    case False
    then have al: "a < length h" using a by simp
    then obtain q where q: "q < a" "Parent (h ! a) = Some q" "Some a \<in> set (Children (h ! q))"
      using l a(2) unfolding linked_def by blast
    then have "Some a \<in> set (Children (?h' ! q))" using chi [of q] al by auto
    then show ?thesis using q al par [of a] by (intro exI [of _ q]) (simp add: nth_append)
  qed
qed

lemma dive_step_linked:
  assumes "dive_inv st" and "linked_inv st" and "dive_step tok st = Inr st'"
  shows "linked_inv st'"
proof -
  obtain s parent root where st: "st = (s, parent, root)" by (cases st)
  have l: "linked (nodes s)" using assms(2) st by (simp add: linked_inv_def)
  have app: "linked (nodes s2) \<and> parent \<noteq> None"
    if nn: "newNode tok parent s = (a, s1)" and ac: "appendChild parent a s1 = Inr s2" for a s1 s2
  proof -
    from nodes_newNode [OF nn] obtain n where n: "a = length (nodes s)" "nodes s1 = nodes s @ [n]"
      "Parent n = parent" by auto
    obtain p where p: "parent = Some p" using ac by (cases parent) (auto simp: appendChild_def deref_def)
    then have pl: "p < length (nodes s)" using assms(1) st by (simp add: dive_inv_def)
    have "nodes s1 ! p = nodes s ! p" using n pl by (simp add: nth_append)
    then have "nodes s2 = (nodes s @ [n])[p := (nodes s ! p)\<lparr>Children := Children (nodes s ! p) @ [Some (length (nodes s))]\<rparr>]"
      using ac n p pl by (auto simp: appendChild_def deref_def)
    then show ?thesis using linked_append_child [OF l pl, of n] n p by simp
  qed
  show ?thesis
  proof (cases "Type tok")
    case StartTagToken
    obtain a s1 where nn: "newNode tok parent s = (a, s1)" by (cases "newNode tok parent s")
    show ?thesis
    proof (cases root)
      case None
      then have "nodes s = []" using assms(1) st by (simp add: dive_inv_def)
      then have "a = 0" "length (nodes s1) = 1" using nodes_newNode [OF nn] by auto
      then show ?thesis using assms(3) st StartTagToken nn None
        by (auto simp: dive_step_def linked_inv_def linked_def)
    next
      case (Some r)
      then show ?thesis using assms(2,3) st StartTagToken nn app [OF nn]
        by (auto simp: dive_step_def linked_inv_def split: sum.splits)
    qed
  next
    case SelfClosingTagToken
    obtain a s1 where nn: "newNode tok parent s = (a, s1)" by (cases "newNode tok parent s")
    show ?thesis using assms(2,3) st SelfClosingTagToken nn app [OF nn]
      by (auto simp: dive_step_def linked_inv_def split: sum.splits)
  qed (use assms(2,3) st in \<open>auto simp: dive_step_def linked_inv_def split: sum.splits option.splits\<close>)
qed

lemma dive_loop_linked:
  "dive_inv st \<Longrightarrow> linked_inv st \<Longrightarrow> dive_loop toks st = Inr (root, s) \<Longrightarrow>
     linked_inv (s, None, root)"
proof (induction toks arbitrary: st)
  case Nil
  then show ?case by (auto simp: linked_inv_def split: prod.splits)
next
  case (Cons t ts)
  show ?case
  proof (cases "Type t = ErrorToken")
    case True
    with Cons.prems show ?thesis by (auto simp: linked_inv_def split: prod.splits)
  next
    case False
    with Cons.prems obtain st' where st': "dive_step t st = Inr st'" "dive_loop ts st' = Inr (root, s)"
      by (auto split: sum.splits)
    have "dive_inv st'" "linked_inv st'"
      using st'(1) Cons.prems(1,2) dive_step_inv dive_step_linked by blast+
    then show ?thesis using Cons.IH st'(2) by blast
  qed
qed

lemma linked_chain:
  "linked h \<Longrightarrow> a < length h \<Longrightarrow> \<exists>cs. child_chain h (0 # cs) \<and> last (0 # cs) = a"
proof (induction a rule: less_induct)
  case (less a)
  show ?case
  proof (cases "a = 0")
    case True
    then show ?thesis using less.prems(2) by (intro exI [of _ "[]"]) simp
  next
    case False
    then obtain p where p: "p < a" "Some a \<in> set (Children (h ! p))"
      using less.prems unfolding linked_def by blast
    then obtain cs where cs: "child_chain h (0 # cs)" "last (0 # cs) = p"
      using less.IH [of p] less.prems by auto
    have "child_chain h ((0 # cs) @ [a])"
      using cs p(2) less.prems(2) child_chain_snoc [of "0 # cs" h a] by blast
    then show ?thesis by (intro exI [of _ "cs @ [a]"]) simp
  qed
qed

lemma dive_every_node_below_root:
  assumes "dive tokens = Inr (root, s)" and "a < length (nodes s)"
  shows "root = Some 0 \<and> (\<exists>cs. child_chain (nodes s) (0 # cs) \<and> last (0 # cs) = a)"
proof -
  have i: "dive_inv (empty_store, None, None)" "linked_inv (empty_store, None, None)"
    by (simp_all add: dive_inv_def wf_nodes_def linked_inv_def linked_def empty_store_def)
  have inv: "dive_inv (s, None, root)" using dive_loop_inv [OF i(1)] assms(1) unfolding dive_def by blast
  have l: "linked_inv (s, None, root)" using dive_loop_linked [OF i] assms(1) unfolding dive_def by blast
  have "root \<noteq> None" using inv assms(2) by (cases root) (auto simp: dive_inv_def)
  then have "root = Some 0" using l by (auto simp: linked_inv_def)
  moreover have "linked (nodes s)" using l by (simp add: linked_inv_def)
  ultimately show ?thesis using linked_chain assms(2) by blast
qed

text \<open>
  C5, as stated: \<open>Path\<close> returns exactly the tag names from the root down to the node,
  joined by \<open>/\<close>. For the \<open>h1\<close> of \<open><div><section><h1>X</h1></section></div>\<close> that is
  \<open>div/section/h1\<close>; the code returns \<open>/div/section/h1\<close>, with a slash in front.
\<close>

theorem Node_Path_counterexample:
  "child_chain (nodes (built div_section_h1)) [0, 1, 2]
   \<and> map Data (nodes (built div_section_h1)) = [''div'', ''section'', ''h1'']
   \<and> Node_Path (nodes (built div_section_h1)) (Some 2) = Inr ''/div/section/h1''
   \<and> Node_Path (nodes (built div_section_h1)) (Some 2) \<noteq> Inr (Join [''div'', ''section'', ''h1''])"
  by (simp add: built_def div_section_h1_def dive_unfold Node_Path_def)

text \<open>
  C5, amended: in a tree that \<open>dive\<close> has returned (the token stream need not be well
  nested) every node is reached from the root by a chain of child links, and for every
  such chain \<open>Path\<close> of the node returns the tag names along the chain, from the root
  down, each preceded by \<open>/\<close> (that is \<open>/\<close> followed by the \<open>/\<close>-joined chain), with no
  marker and no filter.
\<close>

theorem Node_Path_root_chain:
  assumes "dive tokens = Inr (root, s)" and "a < length (nodes s)"
  shows "(\<exists>cs. root = Some 0 \<and> child_chain (nodes s) (0 # cs) \<and> last (0 # cs) = a)
         \<and> (\<forall>r cs. root = Some r \<and> child_chain (nodes s) (r # cs) \<and> last (r # cs) = a \<longrightarrow>
               Node_Path (nodes s) (Some a) =
                 Inr (concat (map (\<lambda>b. ''/'' @ Data (nodes s ! b)) (r # cs))))"
proof (intro conjI allI impI)
  show "\<exists>cs. root = Some 0 \<and> child_chain (nodes s) (0 # cs) \<and> last (0 # cs) = a"
    using dive_every_node_below_root [OF assms] by blast
next
  fix r cs
  assume c: "root = Some r \<and> child_chain (nodes s) (r # cs) \<and> last (r # cs) = a"
  have wf: "wf_nodes (nodes s)" and root: "Parent (nodes s ! r) = None"
    using dive_wf [OF assms(1)] c by simp_all
  have ch: "child_chain (nodes s) (r # cs)" using c by simp
  have "length (r # cs) \<le> Suc (length (nodes s))"
    using child_chain_length [OF wf ch] by simp
  then have "createPath_fuel (Suc (length (nodes s))) (nodes s) (Some (last (r # cs))) [] =
               Inr (concat (map (\<lambda>b. ''/'' @ Data (nodes s ! b)) (r # cs)) @ [])"
    using root by (intro createPath_chain [OF wf ch]) simp_all
  then show "Node_Path (nodes s) (Some a) =
               Inr (concat (map (\<lambda>b. ''/'' @ Data (nodes s ! b)) (r # cs)))"
    using c unfolding Node_Path_def by simp
qed

theorem Node_Path_root_chain_witness:
  "dive div_section_h1 = Inr (Some 0, built div_section_h1)
   \<and> length (nodes (built div_section_h1)) = 3
   \<and> child_chain (nodes (built div_section_h1)) [0, 1, 2]
   \<and> Node_Path (nodes (built div_section_h1)) (Some 2) = Inr ''/div/section/h1''"
proof -
  let ?s = "built div_section_h1"
  have d: "dive div_section_h1 = Inr (Some 0, ?s)"
    by (simp add: built_def div_section_h1_def dive_unfold)
  have l: "length (nodes ?s) = 3"
    and t: "Data (nodes ?s ! 0) = ''div''" "Data (nodes ?s ! 1) = ''section''"
      "Data (nodes ?s ! 2) = ''h1''"
    and c: "child_chain (nodes ?s) [0, 1, 2]"
    by (simp_all add: built_def div_section_h1_def dive_unfold)
  have a: "2 < length (nodes ?s)" using l by simp
  have "Node_Path (nodes ?s) (Some 2) =
          Inr (concat (map (\<lambda>b. ''/'' @ Data (nodes ?s ! b)) [0, 1, 2]))"
    using Node_Path_root_chain [OF d a, THEN conjunct2, rule_format, of 0 "[1, 2]"] c by simp
  also have "concat (map (\<lambda>b. ''/'' @ Data (nodes ?s ! b)) [0, 1, 2]) = ''/div/section/h1''"
    using t by simp
  finally show ?thesis using d l c by simp
qed

section \<open>FindPath and FindPathAll\<close>

lemma built_div_h1_h1:
  "built div_h1_h1 =
     \<lparr>nodes =
        [\<lparr>Type = StartTagToken, Data = ''div'', Attr = [], Parent = None,
           Children = [Some 1, Some 2], Attributes = Map.empty\<rparr>,
         \<lparr>Type = StartTagToken, Data = ''h1'',
           Attr = [\<lparr>Namespace = [], Key = ''class'', Val = ''element''\<rparr>], Parent = Some 0,
           Children = [], Attributes = [''class'' \<mapsto> 1]\<rparr>,
         \<lparr>Type = StartTagToken, Data = ''h1'', Attr = [], Parent = Some 0,
           Children = [], Attributes = Map.empty\<rparr>],
      cells = [\<lparr>Namespace = [], Key = [], Val = []\<rparr>,
               \<lparr>Namespace = [], Key = ''class'', Val = ''element''\<rparr>,
               \<lparr>Namespace = [], Key = [], Val = []\<rparr>],
      slices = []\<rparr>"
  by (simp add: built_def div_h1_h1_def dive_unfold)

lemma built_a_a_b_b:
  "built a_a_b_b =
     \<lparr>nodes =
        [\<lparr>Type = StartTagToken, Data = ''a'', Attr = [], Parent = None,
           Children = [Some 1, Some 3], Attributes = Map.empty\<rparr>,
         \<lparr>Type = StartTagToken, Data = ''a'', Attr = [], Parent = Some 0,
           Children = [Some 2], Attributes = Map.empty\<rparr>,
         \<lparr>Type = StartTagToken, Data = ''b'', Attr = [], Parent = Some 1,
           Children = [], Attributes = Map.empty\<rparr>,
         \<lparr>Type = StartTagToken, Data = ''b'', Attr = [], Parent = Some 0,
           Children = [], Attributes = Map.empty\<rparr>],
      cells = [\<lparr>Namespace = [], Key = [], Val = []\<rparr>, \<lparr>Namespace = [], Key = [], Val = []\<rparr>,
               \<lparr>Namespace = [], Key = [], Val = []\<rparr>, \<lparr>Namespace = [], Key = [], Val = []\<rparr>],
      slices = []\<rparr>"
  by (simp add: built_def a_a_b_b_def dive_unfold)

lemmas lookup_unfold =
  matchesNodePath_def MatchesPath.simps HasClass_def HasID_def HasPrefix_def TrimPrefix_def
  FindTagReverse_def deref_def FindPath_def FindPathAll_def appendSlice_def

lemma those_map_Some:
  "those (map f xs) = Some ys \<longleftrightarrow> list_all2 (\<lambda>x y. f x = Some y) xs ys"
  by (induction xs arbitrary: ys) (auto simp: list_all2_Cons1 split: option.splits)

lemma tree_of_Suc:
  "tree_of (Suc k) h node = Some t \<longleftrightarrow>
     (\<exists>n ts. deref h node = Inr n \<and> t = Tree node ts
        \<and> list_all2 (\<lambda>c t. tree_of k h c = Some t) (Children n) ts)"
  by (auto simp: those_map_Some split: sum.splits)

lemma matchesNodePath_cong:
  "nodes s' = nodes s \<Longrightarrow> cells s' = cells s \<Longrightarrow> matchesNodePath s' node np = matchesNodePath s node np"
proof -
  assume eq: "nodes s' = nodes s" "cells s' = cells s"
  have "HasClass s' node (Class np) = HasClass s node (Class np)"
    and "HasID s' node (ID np) = HasID s node (ID np)"
    unfolding HasClass_def HasID_def eq by simp_all
  then show ?thesis unfolding matchesNodePath_def eq(1) by (simp only:)
qed

lemma appendSlice_frame [simp]:
  "nodes (appendSlice out node s) = nodes s" "cells (appendSlice out node s) = cells s"
  "length (slices (appendSlice out node s)) = length (slices s)"
  by (simp_all add: appendSlice_def)

lemma appended_simps [simp]:
  "nodes (appended out found s) = nodes s" "cells (appended out found s) = cells s"
  "length (slices (appended out found s)) = length (slices s)"
  "appended out [] s = s"
  by (simp_all add: appended_def)

lemma appended_appended:
  "out < length (slices s) \<Longrightarrow> appended out ys (appended out xs s) = appended out (xs @ ys) s"
  by (simp add: appended_def)

lemma appendSlice_appended: "appendSlice out node s = appended out [node] s"
  by (simp add: appendSlice_def appended_def)

lemma findAll_range_preorder:
  assumes IH: "\<And>c t s. tree_of k (nodes s0) c = Some t \<Longrightarrow> nodes s = nodes s0 \<Longrightarrow> cells s = cells s0 \<Longrightarrow>
       out < length (slices s) \<Longrightarrow> \<forall>a \<in> set (preorder t). \<exists>b. matchesNodePath s0 a np = Inr b \<Longrightarrow>
       findAll_fuel k c np out s = Inr (appended out (matching s0 np (preorder t)) s)"
  shows "list_all2 (\<lambda>c t. tree_of k (nodes s0) c = Some t) cs ts \<Longrightarrow>
     nodes s = nodes s0 \<Longrightarrow> cells s = cells s0 \<Longrightarrow> out < length (slices s) \<Longrightarrow>
     \<forall>a \<in> set (concat (map preorder ts)). \<exists>b. matchesNodePath s0 a np = Inr b \<Longrightarrow>
     findAll_range k cs np out s = Inr (appended out (matching s0 np (concat (map preorder ts))) s)"
proof (induction cs ts arbitrary: s rule: list_all2_induct)
  case Nil
  then show ?case by (simp add: matching_def)
next
  case (Cons c cs t ts)
  have "findAll_fuel k c np out s = Inr (appended out (matching s0 np (preorder t)) s)"
    using IH [OF Cons.hyps(1) Cons.prems(1,2,3)] Cons.prems(4) by simp
  moreover have "findAll_range k cs np out (appended out (matching s0 np (preorder t)) s) =
      Inr (appended out (matching s0 np (concat (map preorder ts))) (appended out (matching s0 np (preorder t)) s))"
    using Cons.IH [of "appended out (matching s0 np (preorder t)) s"] Cons.prems by simp
  ultimately show ?case using Cons.prems(3)
    by (simp add: appended_appended matching_def)
qed

lemma findAll_fuel_preorder:
  "tree_of k (nodes s0) node = Some t \<Longrightarrow> nodes s = nodes s0 \<Longrightarrow> cells s = cells s0 \<Longrightarrow>
   out < length (slices s) \<Longrightarrow> \<forall>a \<in> set (preorder t). \<exists>b. matchesNodePath s0 a np = Inr b \<Longrightarrow>
   findAll_fuel k node np out s = Inr (appended out (matching s0 np (preorder t)) s)"
proof (induction k arbitrary: node t s)
  case 0
  then show ?case by simp
next
  case (Suc k)
  from Suc.prems(1) obtain n ts where n: "deref (nodes s0) node = Inr n" "t = Tree node ts"
    "list_all2 (\<lambda>c t. tree_of k (nodes s0) c = Some t) (Children n) ts"
    unfolding tree_of_Suc by blast
  obtain b where b: "matchesNodePath s0 node np = Inr b" using Suc.prems(5) n(2) by auto
  have m: "matchesNodePath s node np = Inr b"
    using b matchesNodePath_cong [OF Suc.prems(2,3)] by simp
  define s1 where "s1 = (if b then appendSlice out node s else s)"
  have s1: "s1 = appended out (matching s0 np [node]) s"
    using b by (simp add: s1_def appendSlice_appended matching_def)
  have fr: "nodes s1 = nodes s0" "cells s1 = cells s0" "out < length (slices s1)"
    using Suc.prems(2,3,4) by (simp_all add: s1)
  have oks: "\<forall>a \<in> set (concat (map preorder ts)). \<exists>b. matchesNodePath s0 a np = Inr b"
    using Suc.prems(5) n(2) by simp
  have r: "findAll_range k (Children n) np out s1 =
             Inr (appended out (matching s0 np (concat (map preorder ts))) s1)"
    using Suc.IH n(3) fr oks by (rule findAll_range_preorder)
  have "findAll_fuel (Suc k) node np out s = findAll_range k (Children n) np out s1"
    using m n(1) fr(1) by (simp add: s1_def [symmetric])
  also have "\<dots> = Inr (appended out (matching s0 np (concat (map preorder ts))) s1)"
    by (rule r)
  also have "appended out (matching s0 np (concat (map preorder ts))) s1 =
               appended out (matching s0 np (preorder t)) s"
    unfolding s1 using Suc.prems(4) n(2) by (simp add: appended_appended matching_def)
  finally show ?case .
qed

lemma tree_of_preorder_Some:
  "tree_of k h node = Some t \<Longrightarrow> a \<in> set (preorder t) \<Longrightarrow> \<exists>i. a = Some i \<and> i < length h"
proof (induction k arbitrary: node t)
  case 0 then show ?case by simp
next
  case (Suc k)
  from Suc.prems(1) obtain n ts where n: "deref h node = Inr n" "t = Tree node ts"
    "list_all2 (\<lambda>c t. tree_of k h c = Some t) (Children n) ts"
    unfolding tree_of_Suc by blast
  show ?case
  proof (cases "a = node")
    case True
    then show ?thesis using n(1) by (auto simp: deref_def split: option.splits if_splits)
  next
    case False
    then obtain t' where t': "t' \<in> set ts" "a \<in> set (preorder t')" using Suc.prems(2) n(2) by auto
    then obtain c where "tree_of k h c = Some t'"
      using n(3) by (auto simp: list_all2_conv_all_nth in_set_conv_nth)
    then show ?thesis using Suc.IH t'(2) by blast
  qed
qed

lemma first_append: "first (xs @ ys) = (if xs = [] then first ys else first xs)"
  by (cases xs) (simp_all add: first_def)

lemma FindPath_range_preorder:
  assumes IH: "\<And>c t. tree_of k (nodes s) c = Some t \<Longrightarrow>
       \<forall>a \<in> set (preorder t). \<exists>b. matchesNodePath s a np = Inr b \<Longrightarrow>
       FindPath_fuel k s c np = Inr (first (matching s np (preorder t)))"
  shows "list_all2 (\<lambda>c t. tree_of k (nodes s) c = Some t) cs ts \<Longrightarrow>
     \<forall>a \<in> set (concat (map preorder ts)). \<exists>b. matchesNodePath s a np = Inr b \<Longrightarrow>
     FindPath_range k s cs np = Inr (first (matching s np (concat (map preorder ts))))"
proof (induction cs ts rule: list_all2_induct)
  case Nil
  then show ?case by (simp add: matching_def first_def)
next
  case (Cons c cs t ts)
  have c: "FindPath_fuel k s c np = Inr (first (matching s np (preorder t)))"
    using IH [OF Cons.hyps(1)] Cons.prems by simp
  have rest: "FindPath_range k s cs np = Inr (first (matching s np (concat (map preorder ts))))"
    using Cons.IH Cons.prems by simp
  have some: "first (matching s np (preorder t)) \<noteq> None" if ne: "matching s np (preorder t) \<noteq> []"
  proof -
    obtain x xs where x: "matching s np (preorder t) = x # xs"
      using ne by (cases "matching s np (preorder t)") auto
    then have "x \<in> set (matching s np (preorder t))" by simp
    then have "x \<in> set (preorder t)" unfolding matching_def by simp
    then show ?thesis using tree_of_preorder_Some [OF Cons.hyps(1)] x by (auto simp: first_def)
  qed
  show ?case
  proof (cases "matching s np (preorder t) = []")
    case True
    then show ?thesis using c rest by (simp add: matching_def first_def)
  next
    case False
    then show ?thesis using c some [OF False]
      by (auto simp: matching_def first_append)
  qed
qed

lemma FindPath_fuel_preorder:
  "tree_of k (nodes s) node = Some t \<Longrightarrow>
   \<forall>a \<in> set (preorder t). \<exists>b. matchesNodePath s a np = Inr b \<Longrightarrow>
   FindPath_fuel k s node np = Inr (first (matching s np (preorder t)))"
proof (induction k arbitrary: node t)
  case 0
  then show ?case by simp
next
  case (Suc k)
  from Suc.prems(1) obtain n ts where n: "deref (nodes s) node = Inr n" "t = Tree node ts"
    "list_all2 (\<lambda>c t. tree_of k (nodes s) c = Some t) (Children n) ts"
    unfolding tree_of_Suc by blast
  obtain b where b: "matchesNodePath s node np = Inr b" using Suc.prems(2) n(2) by auto
  have "FindPath_range k s (Children n) np = Inr (first (matching s np (concat (map preorder ts))))"
    using FindPath_range_preorder [of k s np "Children n" ts, OF Suc.IH n(3)] Suc.prems(2) n(2)
    by simp
  then show ?case using b n by (cases b) (simp_all add: matching_def first_def)
qed

lemma those_map_total: "(\<forall>x \<in> set xs. \<exists>y. f x = Some y) \<Longrightarrow> \<exists>ys. those (map f xs) = Some ys"
  by (induction xs) auto

lemma tree_of_total_aux:
  "wf_nodes h \<Longrightarrow> a < length h \<Longrightarrow> length h - a \<le> k \<Longrightarrow> \<exists>t. tree_of k h (Some a) = Some t"
proof (induction k arbitrary: a)
  case 0 then show ?case by simp
next
  case (Suc k)
  have "\<forall>c \<in> set (Children (h ! a)). \<exists>t. tree_of k h c = Some t"
  proof
    fix c assume "c \<in> set (Children (h ! a))"
    then obtain b where "c = Some b" "a < b" "b < length h"
      using Suc.prems(1,2) unfolding wf_nodes_def by blast
    then show "\<exists>t. tree_of k h c = Some t" using Suc.IH [of b] Suc.prems by simp
  qed
  then show ?case using those_map_total [of "Children (h ! a)" "tree_of k h"] Suc.prems(2)
    by (auto simp: deref_def)
qed

lemma tree_of_total:
  "wf_nodes h \<Longrightarrow> a < length h \<Longrightarrow> \<exists>t. tree_of (Suc (length h)) h (Some a) = Some t"
  by (rule tree_of_total_aux) simp_all

text \<open>
  Every node of a store that \<open>dive\<close> has returned is the root of such a tree.
\<close>

lemma dive_tree_of:
  assumes "dive tokens = Inr (root, s)" and "a < length (nodes s)"
  shows "\<exists>t. tree_of (Suc (length (nodes s))) (nodes s) (Some a) = Some t"
  using dive_wf(1) [OF assms(1)] assms(2) by (rule tree_of_total)

text \<open>
  C7. The claim: for every tree and every query \<open>FindPathAll\<close> returns the matching nodes
  in depth-first pre-order and \<open>FindPath\<close> returns the first of them, or nil iff there is
  none. In the tree built from \<open><a><a><b></b></a><b></b></a>\<close> with the query
  \<open>a/.a/.b\<close>, \<open>FindPath\<close> returns the inner \<open>b\<close>, while \<open>FindPathAll\<close> goes on to the
  outer \<open>b\<close>, where \<open>MatchesPath\<close> follows the direct-child markers to the nil parent of
  the root and panics: \<open>FindPathAll\<close> returns no sequence.
\<close>

theorem FindPathAll_panics_where_FindPath_returns:
  "FindPath (built a_a_b_b) (Some 0) \<lparr>Path = ''a/.a/.b'', ID = [], Class = []\<rparr> = Inr (Some 2)
   \<and> FindPathAll (Some 0) \<lparr>Path = ''a/.a/.b'', ID = [], Class = []\<rparr> (built a_a_b_b)
       = Inl NilDereference"
  by (simp add: built_a_a_b_b lookup_unfold)

text \<open>
  That panic apart, the two functions do what the claim says: when the test of the query
  panics on no node of the tree below \<open>node\<close>, \<open>FindPathAll\<close> returns exactly the nodes
  that pass the test, in depth-first pre-order (a node before its children, children from
  left to right), and \<open>FindPath\<close> returns the first node of that sequence, which is nil
  if and only if the sequence is empty.
\<close>

theorem FindPathAll_preorder:
  assumes "tree_of (Suc (length (nodes s))) (nodes s) node = Some t"
    and "\<forall>a \<in> set (preorder t). \<exists>b. matchesNodePath s a nodePath = Inr b"
  shows "\<exists>s'. FindPathAll node nodePath s = Inr (matching s nodePath (preorder t), s')
           \<and> FindPath s node nodePath = Inr (first (matching s nodePath (preorder t)))
           \<and> (first (matching s nodePath (preorder t)) = None \<longleftrightarrow> matching s nodePath (preorder t) = [])"
proof -
  define s0 where "s0 = s\<lparr>slices := slices s @ [ [] ]\<rparr>"
  define out where "out = length (slices s)"
  define found where "found = matching s nodePath (preorder t)"
  have fr: "nodes s0 = nodes s" "cells s0 = cells s" "out < length (slices s0)"
    by (simp_all add: s0_def out_def)
  have run: "findAll_fuel (Suc (length (nodes s))) node nodePath out s0 = Inr (appended out found s0)"
    unfolding found_def using assms(1) fr assms(2) by (rule findAll_fuel_preorder)
  have "slices (appended out found s0) ! out = found"
    by (simp add: appended_def s0_def out_def)
  then have A: "FindPathAll node nodePath s = Inr (found, appended out found s0)"
    using run by (simp add: FindPathAll_def out_def s0_def del: findAll_fuel.simps)
  have B: "FindPath s node nodePath = Inr (first found)"
    unfolding FindPath_def found_def using assms by (rule FindPath_fuel_preorder)
  have C: "first found = None \<longleftrightarrow> found = []"
  proof (cases found)
    case Nil then show ?thesis by (simp add: first_def)
  next
    case (Cons x xs)
    then have "x \<in> set found" by simp
    then have "x \<in> set (preorder t)" unfolding found_def matching_def by simp
    then show ?thesis using tree_of_preorder_Some [OF assms(1)] Cons by (auto simp: first_def)
  qed
  show ?thesis using A B C unfolding found_def by simp
qed

theorem FindPathAll_preorder_witness:
  "tree_of (Suc (length (nodes (built div_h1_h1)))) (nodes (built div_h1_h1)) (Some 0)
     = Some (Tree (Some 0) [Tree (Some 1) [], Tree (Some 2) [] ])
   \<and> (\<exists>s'. FindPathAll (Some 0) \<lparr>Path = ''div/h1'', ID = [], Class = []\<rparr> (built div_h1_h1)
              = Inr ([Some 1, Some 2], s'))
   \<and> FindPath (built div_h1_h1) (Some 0) \<lparr>Path = ''div/h1'', ID = [], Class = []\<rparr> = Inr (Some 1)"
proof -
  let ?s = "built div_h1_h1"
  let ?t = "Tree (Some 0) [Tree (Some 1) [], Tree (Some 2) [] ]"
  let ?q = "\<lparr>Path = ''div/h1'', ID = [], Class = []\<rparr>"
  have t: "tree_of (Suc (length (nodes ?s))) (nodes ?s) (Some 0) = Some ?t"
    by (simp add: built_div_h1_h1 deref_def)
  have m: "matchesNodePath ?s (Some 0) ?q = Inr False" "matchesNodePath ?s (Some 1) ?q = Inr True"
    "matchesNodePath ?s (Some 2) ?q = Inr True"
    by (simp_all add: built_div_h1_h1 lookup_unfold)
  have ok: "\<forall>a \<in> set (preorder ?t). \<exists>b. matchesNodePath ?s a ?q = Inr b"
    using m by auto
  have f: "matching ?s ?q (preorder ?t) = [Some 1, Some 2]"
    using m by (simp add: matching_def)
  show ?thesis using FindPathAll_preorder [OF t ok] t unfolding f by (simp add: first_def)
qed

section \<open>Lookups do not change the tree\<close>

lemma same_run_Inl [simp]: "same_run out s out' t (Inl e) (Inl e)"
  by (simp add: same_run_def)

lemma same_run_Nil [simp]: "same_run out s out' t (Inr s) (Inr t)"
  unfolding same_run_def by (auto intro: exI [of _ "[]"])

lemma same_run_step:
  assumes o: "out < length (slices s)" "out' < length (slices t)"
    and r: "same_run out (appended out xs s) out' (appended out' xs t) r r'"
  shows "same_run out s out' t r r'"
proof (cases r)
  case (Inl e) then show ?thesis using r by (simp add: same_run_def)
next
  case (Inr s1)
  then obtain found where "s1 = appended out found (appended out xs s)"
    "r' = Inr (appended out' found (appended out' xs t))" using r by (auto simp: same_run_def)
  then have "s1 = appended out (xs @ found) s" "r' = Inr (appended out' (xs @ found) t)"
    using o by (simp_all add: appended_appended)
  then show ?thesis using Inr unfolding same_run_def by auto
qed

lemma findAll_range_same:
  assumes IH: "\<And>c s t. nodes s = nodes t \<Longrightarrow> cells s = cells t \<Longrightarrow> out < length (slices s) \<Longrightarrow>
      out' < length (slices t) \<Longrightarrow>
      same_run out s out' t (findAll_fuel k c np out s) (findAll_fuel k c np out' t)"
  shows "nodes s = nodes t \<Longrightarrow> cells s = cells t \<Longrightarrow> out < length (slices s) \<Longrightarrow>
      out' < length (slices t) \<Longrightarrow>
      same_run out s out' t (findAll_range k cs np out s) (findAll_range k cs np out' t)"
proof (induction cs arbitrary: s t)
  case Nil
  then show ?case by simp
next
  case (Cons c cs)
  have c: "same_run out s out' t (findAll_fuel k c np out s) (findAll_fuel k c np out' t)"
    using IH Cons.prems by simp
  show ?case
  proof (cases "findAll_fuel k c np out s")
    case (Inl e)
    then show ?thesis using c by (simp add: same_run_def)
  next
    case (Inr s1)
    then obtain found where f: "s1 = appended out found s"
      "findAll_fuel k c np out' t = Inr (appended out' found t)"
      using c by (auto simp: same_run_def)
    have "same_run out s1 out' (appended out' found t)
            (findAll_range k cs np out s1) (findAll_range k cs np out' (appended out' found t))"
      using Cons.IH [of s1 "appended out' found t"] Cons.prems f(1) by simp
    then have "same_run out s out' t
            (findAll_range k cs np out s1) (findAll_range k cs np out' (appended out' found t))"
      unfolding f(1) by (rule same_run_step [OF Cons.prems(3,4)])
    then show ?thesis using Inr f(2) by simp
  qed
qed

lemma findAll_fuel_Suc:
  "findAll_fuel (Suc k) node np out s =
     (case matchesNodePath s node np of
        Inl e \<Rightarrow> Inl e
      | Inr b \<Rightarrow>
          (case deref (nodes s) node of
             Inl e \<Rightarrow> Inl e
           | Inr n \<Rightarrow>
               findAll_range k (Children n) np out (appended out (if b then [node] else []) s)))"
  by (auto simp: appendSlice_appended split: sum.splits)

lemma findAll_fuel_same:
  "nodes s = nodes t \<Longrightarrow> cells s = cells t \<Longrightarrow> out < length (slices s) \<Longrightarrow>
   out' < length (slices t) \<Longrightarrow>
   same_run out s out' t (findAll_fuel k node np out s) (findAll_fuel k node np out' t)"
proof (induction k arbitrary: node s t)
  case 0
  then show ?case by simp
next
  case (Suc k)
  have m: "matchesNodePath s node np = matchesNodePath t node np"
    using Suc.prems(1,2) by (rule matchesNodePath_cong)
  show ?case
  proof (cases "matchesNodePath t node np")
    case (Inl e)
    then show ?thesis unfolding findAll_fuel_Suc m by simp
  next
    case (Inr b)
    define xs where "xs = (if b then [node] else [])"
    show ?thesis
    proof (cases "deref (nodes t) node")
      case (Inl e)
      then show ?thesis unfolding findAll_fuel_Suc m Suc.prems(1) Inr by simp
    next
      case n: (Inr n)
      have fr: "nodes (appended out xs s) = nodes (appended out' xs t)"
        "cells (appended out xs s) = cells (appended out' xs t)"
        "out < length (slices (appended out xs s))" "out' < length (slices (appended out' xs t))"
        using Suc.prems by simp_all
      have "same_run out (appended out xs s) out' (appended out' xs t)
              (findAll_range k (Children n) np out (appended out xs s))
              (findAll_range k (Children n) np out' (appended out' xs t))"
        using Suc.IH fr by (rule findAll_range_same)
      then have "same_run out s out' t
              (findAll_range k (Children n) np out (appended out xs s))
              (findAll_range k (Children n) np out' (appended out' xs t))"
        by (rule same_run_step [OF Suc.prems(3,4)])
      then show ?thesis unfolding findAll_fuel_Suc m Suc.prems(1) Inr n xs_def by simp
    qed
  qed
qed

lemma getChildTree_fuel_Suc:
  "getChildTree_fuel (Suc k) node out s =
     (case deref (nodes s) node of
        Inl e \<Rightarrow> Inl e
      | Inr n \<Rightarrow> getChildTree_range k (Children n) out (appended out [node] s))"
  by (auto simp: appendSlice_appended Let_def split: sum.splits)

lemma getChildTree_range_same:
  assumes IH: "\<And>c s t. nodes s = nodes t \<Longrightarrow> out < length (slices s) \<Longrightarrow>
      out' < length (slices t) \<Longrightarrow>
      same_run out s out' t (getChildTree_fuel k c out s) (getChildTree_fuel k c out' t)"
  shows "nodes s = nodes t \<Longrightarrow> out < length (slices s) \<Longrightarrow>
      out' < length (slices t) \<Longrightarrow>
      same_run out s out' t (getChildTree_range k cs out s) (getChildTree_range k cs out' t)"
proof (induction cs arbitrary: s t)
  case Nil
  then show ?case by simp
next
  case (Cons c cs)
  have c: "same_run out s out' t (getChildTree_fuel k c out s) (getChildTree_fuel k c out' t)"
    using Cons.prems by (rule IH)
  show ?case
  proof (cases "getChildTree_fuel k c out s")
    case (Inl e)
    then show ?thesis using c by (simp add: same_run_def)
  next
    case (Inr s1)
    then obtain found where f: "s1 = appended out found s"
      "getChildTree_fuel k c out' t = Inr (appended out' found t)"
      using c by (auto simp: same_run_def)
    have "same_run out s1 out' (appended out' found t)
            (getChildTree_range k cs out s1) (getChildTree_range k cs out' (appended out' found t))"
      using Cons.IH [of s1 "appended out' found t"] Cons.prems f(1) by simp
    then have "same_run out s out' t
            (getChildTree_range k cs out s1) (getChildTree_range k cs out' (appended out' found t))"
      unfolding f(1) by (rule same_run_step [OF Cons.prems(2,3)])
    then show ?thesis using Inr f(2) by simp
  qed
qed

lemma getChildTree_fuel_same:
  "nodes s = nodes t \<Longrightarrow> out < length (slices s) \<Longrightarrow> out' < length (slices t) \<Longrightarrow>
   same_run out s out' t (getChildTree_fuel k node out s) (getChildTree_fuel k node out' t)"
proof (induction k arbitrary: node s t)
  case 0
  then show ?case by simp
next
  case (Suc k)
  show ?case
  proof (cases "deref (nodes t) node")
    case (Inl e)
    then show ?thesis unfolding getChildTree_fuel_Suc Suc.prems(1) by simp
  next
    case n: (Inr n)
    have fr: "nodes (appended out [node] s) = nodes (appended out' [node] t)"
      "out < length (slices (appended out [node] s))"
      "out' < length (slices (appended out' [node] t))"
      using Suc.prems by simp_all
    have "same_run out (appended out [node] s) out' (appended out' [node] t)
            (getChildTree_range k (Children n) out (appended out [node] s))
            (getChildTree_range k (Children n) out' (appended out' [node] t))"
      using Suc.IH fr by (rule getChildTree_range_same)
    then have "same_run out s out' t
            (getChildTree_range k (Children n) out (appended out [node] s))
            (getChildTree_range k (Children n) out' (appended out' [node] t))"
      by (rule same_run_step [OF Suc.prems(2,3)])
    then show ?thesis unfolding getChildTree_fuel_Suc Suc.prems(1) n by simp
  qed
qed

text \<open>The result of a collecting lookup and the nodes it leaves behind.\<close>

lemma same_run_fresh:
  assumes "same_run (length (slices s)) (s\<lparr>slices := slices s @ [ [] ]\<rparr>)
             (length (slices t)) (t\<lparr>slices := slices t @ [ [] ]\<rparr>) r r'"
    and "nodes s = nodes t" "cells s = cells t"
  shows "(case r of Inl e \<Rightarrow> r' = Inl e
          | Inr s1 \<Rightarrow> nodes s1 = nodes s \<and> cells s1 = cells s
              \<and> (\<exists>t1. r' = Inr t1 \<and> slices t1 ! length (slices t) = slices s1 ! length (slices s)))"
  using assms by (auto simp: same_run_def appended_def split: sum.splits)

lemma FindPathAll_same:
  assumes "nodes s = nodes t" "cells s = cells t"
  shows "map_sum id fst (FindPathAll node np s) = map_sum id fst (FindPathAll node np t)"
    and "FindPathAll node np s = Inr (found, s') \<Longrightarrow> nodes s' = nodes s \<and> cells s' = cells s"
proof -
  let ?r = "findAll_fuel (Suc (length (nodes s))) node np (length (slices s)) (s\<lparr>slices := slices s @ [ [] ]\<rparr>)"
  let ?r' = "findAll_fuel (Suc (length (nodes t))) node np (length (slices t)) (t\<lparr>slices := slices t @ [ [] ]\<rparr>)"
  have "same_run (length (slices s)) (s\<lparr>slices := slices s @ [ [] ]\<rparr>)
             (length (slices t)) (t\<lparr>slices := slices t @ [ [] ]\<rparr>) ?r ?r'"
    unfolding assms(1) using assms by (intro findAll_fuel_same) simp_all
  from same_run_fresh [OF this assms]
  have *: "(case ?r of Inl e \<Rightarrow> ?r' = Inl e
          | Inr s1 \<Rightarrow> nodes s1 = nodes s \<and> cells s1 = cells s
              \<and> (\<exists>t1. ?r' = Inr t1 \<and> slices t1 ! length (slices t) = slices s1 ! length (slices s)))" .
  show "map_sum id fst (FindPathAll node np s) = map_sum id fst (FindPathAll node np t)"
    using * unfolding FindPathAll_def Let_def by (cases ?r) auto
  show "FindPathAll node np s = Inr (found, s') \<Longrightarrow> nodes s' = nodes s \<and> cells s' = cells s"
    using * unfolding FindPathAll_def Let_def by (cases ?r) auto
qed

lemma FlattenChildren_same:
  assumes "nodes s = nodes t"
  shows "map_sum id fst (FlattenChildren node s) = map_sum id fst (FlattenChildren node t)"
    and "FlattenChildren node s = Inr (found, s') \<Longrightarrow> nodes s' = nodes s \<and> cells s' = cells s"
proof -
  show "map_sum id fst (FlattenChildren node s) = map_sum id fst (FlattenChildren node t)"
  proof (cases "deref (nodes t) node")
    case (Inl e) then show ?thesis unfolding FlattenChildren_def Let_def assms by simp
  next
    case (Inr n)
    let ?r = "getChildTree_range (Suc (length (nodes s))) (Children n) (length (slices s)) (s\<lparr>slices := slices s @ [ [] ]\<rparr>)"
    let ?r' = "getChildTree_range (Suc (length (nodes t))) (Children n) (length (slices t)) (t\<lparr>slices := slices t @ [ [] ]\<rparr>)"
    have "same_run (length (slices s)) (s\<lparr>slices := slices s @ [ [] ]\<rparr>)
             (length (slices t)) (t\<lparr>slices := slices t @ [ [] ]\<rparr>) ?r ?r'"
      unfolding assms(1) using assms
      by (intro getChildTree_range_same getChildTree_fuel_same) simp_all
    then have "(case ?r of Inl e \<Rightarrow> ?r' = Inl e
          | Inr s1 \<Rightarrow> (\<exists>t1. ?r' = Inr t1 \<and> slices t1 ! length (slices t) = slices s1 ! length (slices s)))"
      by (auto simp: same_run_def appended_def split: sum.splits)
    then show ?thesis using Inr unfolding FlattenChildren_def Let_def assms
      by (auto split: sum.splits)
  qed
  show "FlattenChildren node s = Inr (found, s') \<Longrightarrow> nodes s' = nodes s \<and> cells s' = cells s"
  proof (cases "deref (nodes s) node")
    case (Inl e) then show "FlattenChildren node s = Inr (found, s') \<Longrightarrow> nodes s' = nodes s \<and> cells s' = cells s"
      unfolding FlattenChildren_def Let_def by simp
  next
    case (Inr n)
    let ?r = "getChildTree_range (Suc (length (nodes s))) (Children n) (length (slices s)) (s\<lparr>slices := slices s @ [ [] ]\<rparr>)"
    have "same_run (length (slices s)) (s\<lparr>slices := slices s @ [ [] ]\<rparr>)
             (length (slices s)) (s\<lparr>slices := slices s @ [ [] ]\<rparr>) ?r ?r"
      by (intro getChildTree_range_same getChildTree_fuel_same) simp_all
    then have "(case ?r of Inl e \<Rightarrow> True | Inr s1 \<Rightarrow> nodes s1 = nodes s \<and> cells s1 = cells s)"
      by (auto simp: same_run_def appended_def split: sum.splits)
    then show "FlattenChildren node s = Inr (found, s') \<Longrightarrow> nodes s' = nodes s \<and> cells s' = cells s"
      using Inr unfolding FlattenChildren_def Let_def by (cases ?r) auto
  qed
qed

lemma FindPath_fuel_same:
  "nodes s = nodes t \<Longrightarrow> cells s = cells t \<Longrightarrow>
     FindPath_fuel k s node np = FindPath_fuel k t node np"
  and FindPath_range_same:
  "nodes s = nodes t \<Longrightarrow> cells s = cells t \<Longrightarrow>
     FindPath_range k s cs np = FindPath_range k t cs np"
proof (induction k s node np and k s cs np rule: FindPath_fuel_FindPath_range.induct)
  case (2 k s node nodePath)
  have m: "matchesNodePath s node nodePath = matchesNodePath t node nodePath"
    using "2.prems" by (rule matchesNodePath_cong)
  show ?case
  proof (cases "matchesNodePath t node nodePath")
    case (Inl e) then show ?thesis using m by simp
  next
    case b: (Inr b)
    show ?thesis
    proof (cases b)
      case True then show ?thesis using m b by simp
    next
      case False
      show ?thesis
      proof (cases "deref (nodes t) node")
        case (Inl e) then show ?thesis using m b False "2.prems"(1) by simp
      next
        case (Inr n)
        then show ?thesis using m b False "2.prems" "2.IH" [of False n] by simp
      qed
    qed
  qed
next
  case (4 k s child rest nodePath)
  have c: "FindPath_fuel k s child nodePath = FindPath_fuel k t child nodePath"
    using "4.IH"(1) "4.prems" by simp
  show ?case
  proof (cases "FindPath_fuel k t child nodePath")
    case (Inl e) then show ?thesis using c by simp
  next
    case (Inr r)
    then show ?thesis using c "4.IH"(2) [of r] "4.prems" by (cases r) simp_all
  qed
qed simp_all

text \<open>
  C8. A lookup (\<open>FindPath\<close>, \<open>FindPathAll\<close>, \<open>FindTag\<close>, \<open>FindTagReverse\<close>,
  \<open>MatchesPath\<close>, \<open>FlattenChildren\<close>, \<open>Path\<close>) that returns leaves every node and every
  attribute as it was; afterwards every lookup, the same one or another, on any receiver,
  gives the result it would have given before.
\<close>

theorem lookups_leave_the_tree_unchanged:
  assumes "run op node s = Inr (ans, s')"
  shows "nodes s' = nodes s \<and> cells s' = cells s
         \<and> map_sum id fst (run op' node' s') = map_sum id fst (run op' node' s)"
proof -
  have fr: "nodes s' = nodes s \<and> cells s' = cells s"
  proof (cases op)
    case (DoFindPathAll np)
    then obtain found where "FindPathAll node np s = Inr (found, s')"
      using assms by (cases "FindPathAll node np s") auto
    then show ?thesis using FindPathAll_same(2) [of s s] by simp
  next
    case DoFlattenChildren
    then obtain found where "FlattenChildren node s = Inr (found, s')"
      using assms by (cases "FlattenChildren node s") auto
    then show ?thesis using FlattenChildren_same(2) [of s s] by simp
  qed (use assms in \<open>auto simp: map_sum_def split: sum.splits\<close>)
  then have n: "nodes s' = nodes s" and c: "cells s' = cells s" by simp_all
  have "map_sum id fst (run op' node' s') = map_sum id fst (run op' node' s)"
  proof (cases op')
    case (DoFindPath np)
    then show ?thesis using FindPath_fuel_same [OF n c] by (simp add: FindPath_def n sum.map_comp comp_def)
  next
    case (DoFindPathAll np)
    have "map_sum id fst (map_sum id (\<lambda>(found, s'). (ANodes found, s')) r) = map_sum id ANodes (map_sum id fst r)"
      for r :: "error + ref list \<times> store" by (cases r) auto
    then show ?thesis using DoFindPathAll FindPathAll_same(1) [OF n c] by simp
  next
    case DoFlattenChildren
    have "map_sum id fst (map_sum id (\<lambda>(found, s'). (ANodes found, s')) r) = map_sum id ANodes (map_sum id fst r)"
      for r :: "error + ref list \<times> store" by (cases r) auto
    then show ?thesis using DoFlattenChildren FlattenChildren_same(1) [OF n] by simp
  qed (simp_all add: n sum.map_comp comp_def)
  then show ?thesis using fr by simp
qed

theorem lookups_leave_the_tree_unchanged_witness:
  "\<exists>s'. run (DoFindPathAll \<lparr>Path = ''div/h1'', ID = [], Class = ''element''\<rparr>) (Some 0)
          (built div_h1_h1) = Inr (ANodes [Some 1], s')
        \<and> nodes s' = nodes (built div_h1_h1) \<and> cells s' = cells (built div_h1_h1)
        \<and> slices s' \<noteq> slices (built div_h1_h1)
        \<and> map_sum id fst (run (DoFindPathAll \<lparr>Path = ''div/h1'', ID = [], Class = ''element''\<rparr>)
             (Some 0) s') = Inr (ANodes [Some 1])
        \<and> map_sum id fst (run DoFlattenChildren (Some 0) s') = Inr (ANodes [Some 1, Some 2])"
proof -
  let ?s = "built div_h1_h1"
  let ?q = "\<lparr>Path = ''div/h1'', ID = [], Class = ''element''\<rparr>"
  define s' where "s' = ?s\<lparr>slices := [ [Some 1] ]\<rparr>"
  have r: "run (DoFindPathAll ?q) (Some 0) ?s = Inr (ANodes [Some 1], s')"
    by (simp add: s'_def built_div_h1_h1 lookup_unfold)
  have f: "map_sum id fst (run DoFlattenChildren (Some 0) ?s) = Inr (ANodes [Some 1, Some 2])"
    by (simp add: built_div_h1_h1 FlattenChildren_def deref_def appendSlice_def)
  have d: "slices s' \<noteq> slices ?s" by (simp add: s'_def built_div_h1_h1)
  show ?thesis
    using lookups_leave_the_tree_unchanged [OF r, of "DoFindPathAll ?q" "Some 0"]
      lookups_leave_the_tree_unchanged [OF r, of DoFlattenChildren "Some 0"] r f d
    by (intro exI [of _ s']) simp
qed

end
